theory Spec2Isabelle
  imports Main "HOL-Library.AList" "HOL-Library.Monad_Syntax"
begin

section \<open>Values shared by the modules\<close>

text \<open>
  Text is a list of code units. HOL characters have eight bits, so the model covers the
  JavaScript strings whose code units are below 256; \<open>length\<close> is the
  \<^verbatim>\<open>.length\<close> of such a string.

  A value decoded from JSON. Numbers are restricted to the integers; a property that is
  absent (\<^verbatim>\<open>undefined\<close>) is \<open>None\<close> of \<open>json option\<close>.
\<close>

datatype json =
    JNull
  | JBool bool
  | JNum int
  | JStr string
  | JArr "json list"
  | JObj "(string \<times> json) list"

section \<open>The content cache: server/contentCache.cjs\<close>

text \<open>
  \<^verbatim>\<open>contentCache\<close> is a JavaScript \<^verbatim>\<open>Map\<close> from content id to
  \<^verbatim>\<open>{ content, hash, lastAccess, createTime }\<close>. A \<^verbatim>\<open>Map\<close> iterates in insertion
  order, \<^verbatim>\<open>set\<close> on a present key keeps the key's place and \<^verbatim>\<open>set\<close> on a new key
  appends: an association list with \<open>AList.update\<close> and \<open>AList.delete\<close>.
  Times are the integers \<^verbatim>\<open>Date.now()\<close> returns (milliseconds).
\<close>

record cache_entry =
  content :: string
  hash :: string
  createTime :: int
  lastAccess :: int

type_synonym content_cache = "(string \<times> cache_entry) list"

definition CACHE_MAX_SIZE :: nat where
  "CACHE_MAX_SIZE = 50"

definition CACHE_TTL :: int where
  "CACHE_TTL = 2 * 60 * 60 * 1000"

text \<open>
  \<^verbatim>\<open>generateHash\<close> is the first 16 hexadecimal digits of the MD5 digest, computed by
  Node's \<^verbatim>\<open>crypto\<close> library, which is not part of the repository: the hash function is
  the parameter \<open>H\<close> of every operation that hashes.

  \<^verbatim>\<open>generateContentId\<close> is \<^verbatim>\<open>`content_${Date.now()}_${Math.random().toString(36).substr(2, 8)}`\<close>:
  the clock reading and the random suffix are arguments.
\<close>

definition digitChar :: "nat \<Rightarrow> char" where
  "digitChar d = ''0123456789'' ! d"

function digitsOf :: "nat \<Rightarrow> string" where
  "digitsOf n =
     (if n < 10 then [digitChar n] else digitsOf (n div 10) @ [digitChar (n mod 10)])"
  by pat_completeness auto
termination
  by (relation "measure (\<lambda>n. n)") auto

declare digitsOf.simps [simp del]

definition decimal :: "int \<Rightarrow> string" where
  "decimal i = (if i < 0 then CHR ''-'' # digitsOf (nat (- i)) else digitsOf (nat i))"

definition generateContentId :: "int \<Rightarrow> string \<Rightarrow> string" where
  "generateContentId now rnd = ''content_'' @ decimal now @ ''_'' @ rnd"

text \<open>
  The readings of the environment one call of \<^verbatim>\<open>storeContent\<close> makes, in the order
  the source makes them: \<open>now_scan\<close> is the first \<^verbatim>\<open>Date.now()\<close> (the refreshed
  \<^verbatim>\<open>lastAccess\<close> on a dedup hit, the \<^verbatim>\<open>now\<close> of \<^verbatim>\<open>cleanExpiredCache\<close> otherwise),
  \<open>now_id\<close> and \<open>rnd\<close> feed \<^verbatim>\<open>generateContentId\<close>, \<open>now_create\<close> and
  \<open>now_access\<close> are the two readings stored in the new entry.
\<close>

record store_env =
  now_scan :: int
  now_id :: int
  rnd :: string
  now_create :: int
  now_access :: int

record store_result =
  contentId :: "string option"
  isNew :: bool
  size_r :: nat

definition expired :: "int \<Rightarrow> cache_entry \<Rightarrow> bool" where
  "expired now e = (now - lastAccess e > CACHE_TTL)"

text \<open>
  \<^verbatim>\<open>cleanExpiredCache\<close>: every entry is visited once and deleted when expired (deleting
  the visited key during the iteration of a \<^verbatim>\<open>Map\<close> is safe).
\<close>

definition cleanExpiredCache :: "int \<Rightarrow> content_cache \<Rightarrow> content_cache" where
  "cleanExpiredCache now cache = filter (\<lambda>(cid, e). \<not> expired now e) cache"

text \<open>
  The scan for the oldest entry: \<^verbatim>\<open>oldestTime\<close> starts at \<^verbatim>\<open>Infinity\<close> (\<open>None\<close>) and
  \<^verbatim>\<open>oldestId\<close> at \<^verbatim>\<open>null\<close>; the comparison is strict, so among equal
  \<^verbatim>\<open>lastAccess\<close> values the first entry in insertion order is kept.
\<close>

fun scanOldest :: "content_cache \<Rightarrow> string option \<times> int option \<Rightarrow> string option \<times> int option" where
  "scanOldest [] acc = acc"
| "scanOldest ((cid, e) # rest) (oldestId, oldestTime) =
     scanOldest rest
       (if (case oldestTime of None \<Rightarrow> True | Some t \<Rightarrow> lastAccess e < t)
        then (Some cid, Some (lastAccess e))
        else (oldestId, oldestTime))"

text \<open>\<^verbatim>\<open>if (oldestId) contentCache.delete(oldestId)\<close>: the empty string is falsy.\<close>

definition evictOldest :: "content_cache \<Rightarrow> content_cache" where
  "evictOldest cache =
     (case fst (scanOldest cache (None, None)) of
        None \<Rightarrow> cache
      | Some oid \<Rightarrow> if oid = [] then cache else AList.delete oid cache)"

definition nullResult :: store_result where
  "nullResult = \<lparr>contentId = None, isNew = False, size_r = 0\<rparr>"

text \<open>
  \<^verbatim>\<open>storeContent(content)\<close>. The argument is whatever the caller passes: \<open>None\<close> is
  \<^verbatim>\<open>undefined\<close>. The dedup scan returns at the first entry, in insertion order, whose
  hash equals the hash of the content; it does not look at \<^verbatim>\<open>lastAccess\<close>.
\<close>

definition storeContent ::
  "(string \<Rightarrow> string) \<Rightarrow> store_env \<Rightarrow> json option \<Rightarrow> content_cache \<Rightarrow> store_result \<times> content_cache" where
  "storeContent H env v cache =
     (case v of
        Some (JStr c) \<Rightarrow>
          if c = [] then (nullResult, cache)
          else
            (case find (\<lambda>(cid, e). hash e = H c) cache of
               Some (cid, cached) \<Rightarrow>
                 (\<lparr>contentId = Some cid, isNew = False, size_r = length (content cached)\<rparr>,
                  AList.update cid (cached\<lparr>lastAccess := now_scan env\<rparr>) cache)
             | None \<Rightarrow>
                 (let cleaned = cleanExpiredCache (now_scan env) cache;
                      room = (if length cleaned \<ge> CACHE_MAX_SIZE then evictOldest cleaned else cleaned);
                      newId = generateContentId (now_id env) (rnd env)
                  in (\<lparr>contentId = Some newId, isNew = True, size_r = length c\<rparr>,
                      AList.update newId
                        \<lparr>content = c, hash = H c, createTime = now_create env,
                         lastAccess = now_access env\<rparr> room)))
      | _ \<Rightarrow> (nullResult, cache))"

text \<open>
  \<^verbatim>\<open>getContent(contentId)\<close>, with its two clock readings: \<open>now_check\<close> in the expiry
  test and \<open>now_touch\<close> stored as the new \<^verbatim>\<open>lastAccess\<close>. \<open>None\<close> is \<^verbatim>\<open>null\<close>.
\<close>

definition getContent :: "int \<Rightarrow> int \<Rightarrow> string \<Rightarrow> content_cache \<Rightarrow> string option \<times> content_cache" where
  "getContent now_check now_touch cid cache =
     (if cid = [] then (None, cache)
      else
        (case map_of cache cid of
           None \<Rightarrow> (None, cache)
         | Some cached \<Rightarrow>
             if expired now_check cached then (None, AList.delete cid cache)
             else (Some (content cached), AList.update cid (cached\<lparr>lastAccess := now_touch\<rparr>) cache)))"

definition clearCache :: "content_cache \<Rightarrow> content_cache" where
  "clearCache cache = []"

text \<open>The operations on the cache, and a run of them from a given cache.\<close>

datatype cache_op =
    Store store_env "json option"
  | Get int int string
  | Clean int
  | Clear

fun applyOp :: "(string \<Rightarrow> string) \<Rightarrow> content_cache \<Rightarrow> cache_op \<Rightarrow> content_cache" where
  "applyOp H cache (Store env v) = snd (storeContent H env v cache)"
| "applyOp H cache (Get t1 t2 cid) = snd (getContent t1 t2 cid cache)"
| "applyOp H cache (Clean now) = cleanExpiredCache now cache"
| "applyOp H cache Clear = clearCache cache"

definition runOps :: "(string \<Rightarrow> string) \<Rightarrow> cache_op list \<Rightarrow> content_cache \<Rightarrow> content_cache" where
  "runOps H ops cache = foldl (applyOp H) cache ops"

text \<open>The two invariants of the cache map, and what the proofs need beside them.\<close>

definition hashesDistinct :: "content_cache \<Rightarrow> bool" where
  "hashesDistinct cache = distinct (map (\<lambda>(cid, e). hash e) cache)"

definition keysOk :: "content_cache \<Rightarrow> bool" where
  "keysOk cache = (distinct (map fst cache) \<and> [] \<notin> set (map fst cache))"

lemma generateContentId_nonempty: "generateContentId now r \<noteq> []"
  by (simp add: generateContentId_def)

subsection \<open>The scan for the oldest entry\<close>

lemma scanOldest_char:
  "((\<forall>x\<in>set c. case ot of None \<Rightarrow> False | Some t \<Rightarrow> t \<le> lastAccess (snd x)) \<and> scanOldest c (oid, ot) = (oid, ot))
   \<or> (\<exists>pre k e post. c = pre @ (k, e) # post
         \<and> scanOldest c (oid, ot) = (Some k, Some (lastAccess e))
         \<and> (case ot of None \<Rightarrow> True | Some t \<Rightarrow> lastAccess e < t)
         \<and> (\<forall>x\<in>set pre. lastAccess e < lastAccess (snd x))
         \<and> (\<forall>x\<in>set post. lastAccess e \<le> lastAccess (snd x)))"
proof (induction c arbitrary: oid ot)
  case Nil
  then show ?case by simp
next
  case (Cons a rest)
  obtain k0 e0 where a: "a = (k0, e0)" by (cases a)
  show ?case
  proof (cases "case ot of None \<Rightarrow> True | Some t \<Rightarrow> lastAccess e0 < t")
    case True
    from Cons.IH[where oid="Some k0" and ot="Some (lastAccess e0)"]
    show ?thesis
    proof
      assume h: "(\<forall>x\<in>set rest. case Some (lastAccess e0) of None \<Rightarrow> False | Some t \<Rightarrow> t \<le> lastAccess (snd x)) \<and>
        scanOldest rest (Some k0, Some (lastAccess e0)) = (Some k0, Some (lastAccess e0))"
      have "a # rest = [] @ (k0, e0) # rest" using a by simp
      with h True a show ?thesis 
        apply (intro disjI2)
        apply (rule exI[of _ "[]"], rule exI[of _ k0], rule exI[of _ e0], rule exI[of _ rest])
        by simp
    next
      assume "\<exists>pre k e post. rest = pre @ (k, e) # post \<and>
        scanOldest rest (Some k0, Some (lastAccess e0)) = (Some k, Some (lastAccess e)) \<and>
        (case Some (lastAccess e0) of None \<Rightarrow> True | Some t \<Rightarrow> lastAccess e < t) \<and>
        (\<forall>x\<in>set pre. lastAccess e < lastAccess (snd x)) \<and>
        (\<forall>x\<in>set post. lastAccess e \<le> lastAccess (snd x))"
      then obtain pre k e post where h: "rest = pre @ (k, e) # post"
        "scanOldest rest (Some k0, Some (lastAccess e0)) = (Some k, Some (lastAccess e))"
        "lastAccess e < lastAccess e0"
        "\<forall>x\<in>set pre. lastAccess e < lastAccess (snd x)"
        "\<forall>x\<in>set post. lastAccess e \<le> lastAccess (snd x)" by auto
      show ?thesis
        apply (intro disjI2)
        apply (rule exI[of _ "(k0, e0) # pre"], rule exI[of _ k], rule exI[of _ e], rule exI[of _ post])
        using h True a by (auto split: option.splits)
    qed
  next
    case False
    then obtain t where ot: "ot = Some t" and t: "t \<le> lastAccess e0" by (auto split: option.splits)
    from Cons.IH[where oid=oid and ot=ot]
    show ?thesis
    proof
      assume "(\<forall>x\<in>set rest. case ot of None \<Rightarrow> False | Some t \<Rightarrow> t \<le> lastAccess (snd x)) \<and>
        scanOldest rest (oid, ot) = (oid, ot)"
      then show ?thesis using a ot t by auto
    next
      assume "\<exists>pre k e post. rest = pre @ (k, e) # post \<and>
        scanOldest rest (oid, ot) = (Some k, Some (lastAccess e)) \<and>
        (case ot of None \<Rightarrow> True | Some t \<Rightarrow> lastAccess e < t) \<and>
        (\<forall>x\<in>set pre. lastAccess e < lastAccess (snd x)) \<and>
        (\<forall>x\<in>set post. lastAccess e \<le> lastAccess (snd x))"
      then obtain pre k e post where h: "rest = pre @ (k, e) # post"
        "scanOldest rest (oid, ot) = (Some k, Some (lastAccess e))"
        "lastAccess e < t"
        "\<forall>x\<in>set pre. lastAccess e < lastAccess (snd x)"
        "\<forall>x\<in>set post. lastAccess e \<le> lastAccess (snd x)" using ot by auto
      show ?thesis
        apply (intro disjI2)
        apply (rule exI[of _ "(k0, e0) # pre"], rule exI[of _ k], rule exI[of _ e], rule exI[of _ post])
        using h a ot t by auto
    qed
  qed
qed

lemma scanOldest_nonempty:
  assumes "c \<noteq> []"
  shows "\<exists>pre k e post. c = pre @ (k, e) # post
         \<and> scanOldest c (None, None) = (Some k, Some (lastAccess e))
         \<and> (\<forall>x\<in>set pre. lastAccess e < lastAccess (snd x))
         \<and> (\<forall>x\<in>set post. lastAccess e \<le> lastAccess (snd x))"
proof -
  from assms obtain k0 e0 where "(k0, e0) \<in> set c" by (cases c) auto
  then have "\<not> (\<forall>x\<in>set c. case None :: int option of None \<Rightarrow> False | Some t \<Rightarrow> t \<le> lastAccess (snd x))"
    by auto
  with scanOldest_char[where c=c and ot=None and oid=None] show ?thesis by blast
qed

lemma delete_split:
  assumes "distinct (map fst (pre @ (k, e) # post))"
  shows "AList.delete k (pre @ (k, e) # post) = pre @ post"
proof -
  have a: "k \<notin> fst ` set pre" and b: "k \<notin> fst ` set post" using assms by auto
  have "filter (\<lambda>(k', _). k \<noteq> k') pre = pre" using a by (intro filter_True) force
  moreover have "filter (\<lambda>(k', _). k \<noteq> k') post = post" using b by (intro filter_True) force
  ultimately show ?thesis by (simp add: AList.delete_eq)
qed

lemma evictOldest_split:
  assumes "keysOk c" "c \<noteq> []"
  shows "\<exists>pre k e post. c = pre @ (k, e) # post \<and> evictOldest c = pre @ post
         \<and> (\<forall>x\<in>set pre. lastAccess e < lastAccess (snd x))
         \<and> (\<forall>x\<in>set post. lastAccess e \<le> lastAccess (snd x))"
proof -
  from scanOldest_nonempty[OF assms(2)] obtain pre k e post where
    h: "c = pre @ (k, e) # post" "scanOldest c (None, None) = (Some k, Some (lastAccess e))"
       "\<forall>x\<in>set pre. lastAccess e < lastAccess (snd x)"
       "\<forall>x\<in>set post. lastAccess e \<le> lastAccess (snd x)" by blast
  have k: "k \<noteq> []" using assms(1) h(1) by (auto simp: keysOk_def)
  have d: "distinct (map fst (pre @ (k, e) # post))" using assms(1) h(1) by (simp add: keysOk_def)
  have "evictOldest c = pre @ post"
    using h(2) k delete_split[OF d] h(1) by (simp add: evictOldest_def)
  with h show ?thesis by blast
qed

subsection \<open>The invariants are kept by every operation\<close>

lemma keysOk_filter: "keysOk c \<Longrightarrow> keysOk (filter P c)"
  by (auto simp: keysOk_def distinct_map_filter)

lemma keysOk_delete: "keysOk c \<Longrightarrow> keysOk (AList.delete k c)"
  by (simp add: AList.delete_eq keysOk_filter)

lemma keysOk_update: "keysOk c \<Longrightarrow> k \<noteq> [] \<Longrightarrow> keysOk (AList.update k v c)"
  by (auto simp: keysOk_def distinct_update dom_update)

lemma hashesDistinct_filter: "hashesDistinct c \<Longrightarrow> hashesDistinct (filter P c)"
  by (simp add: hashesDistinct_def distinct_map_filter)

lemma hashesDistinct_delete: "hashesDistinct c \<Longrightarrow> hashesDistinct (AList.delete k c)"
  by (simp add: AList.delete_eq hashesDistinct_filter)

lemma hashes_update_subset:
  "(\<lambda>(cid, e). hash e) ` set (AList.update k v c) \<subseteq> insert (hash v) ((\<lambda>(cid, e). hash e) ` set c)"
  by (induction c) auto

lemma hashesDistinct_update_new:
  "hashesDistinct c \<Longrightarrow> hash v \<notin> (\<lambda>(cid, e). hash e) ` set c \<Longrightarrow> hashesDistinct (AList.update k v c)"
proof (induction c)
  case Nil
  then show ?case by (simp add: hashesDistinct_def)
next
  case (Cons a c)
  obtain k0 e0 where a: "a = (k0, e0)" by (cases a)
  show ?case
  proof (cases "k0 = k")
    case True
    then show ?thesis using Cons.prems a by (auto simp: hashesDistinct_def)
  next
    case False
    have ih: "hashesDistinct (AList.update k v c)" using Cons by (auto simp: hashesDistinct_def)
    have n1: "hash e0 \<noteq> hash v" using Cons.prems(2) a by auto
    have n2: "hash e0 \<notin> (\<lambda>(cid, e). hash e) ` set c"
      using Cons.prems(1) a by (simp add: hashesDistinct_def image_def)
    have "hash e0 \<notin> (\<lambda>(cid, e). hash e) ` set (AList.update k v c)"
      using subsetD[OF hashes_update_subset[of k v c], of "hash e0"] n1 n2 by blast
    then show ?thesis using ih a False by (auto simp: hashesDistinct_def)
  qed
qed

lemma hashes_update_same:
  "distinct (map fst c) \<Longrightarrow> (k, e) \<in> set c \<Longrightarrow> hash v = hash e \<Longrightarrow>
   map (\<lambda>(cid, e). hash e) (AList.update k v c) = map (\<lambda>(cid, e). hash e) c"
  by (induction c) (auto simp: rev_image_eqI)

lemma length_update_le: "length (AList.update k v c) \<le> Suc (length c)"
  by (induction c) auto

lemma update_fresh: "k \<notin> fst ` set c \<Longrightarrow> AList.update k v c = c @ [(k, v)]"
  by (induction c) auto

lemma length_update_present: "k \<in> fst ` set c \<Longrightarrow> length (AList.update k v c) = length c"
  by (induction c) auto

lemma find_hash_None: "find (\<lambda>(cid, e). hash e = h) c = None \<longleftrightarrow> h \<notin> (\<lambda>(cid, e). hash e) ` set c"
  by (auto simp: find_None_iff)

lemma find_hash_Some:
  "find (\<lambda>(cid, e). hash e = h) c = Some (k, e) \<Longrightarrow> (k, e) \<in> set c \<and> hash e = h"
  by (auto simp: find_Some_iff in_set_conv_nth)

lemma find_hash_unique:
  assumes "hashesDistinct c" "(k, e) \<in> set c"
  shows "find (\<lambda>(cid, e'). hash e' = hash e) c = Some (k, e)"
  using assms
proof (induction c)
  case Nil
  then show ?case by simp
next
  case (Cons a c)
  obtain k0 e0 where a: "a = (k0, e0)" by (cases a)
  show ?case
  proof (cases "(k, e) = a")
    case True
    then show ?thesis by auto
  next
    case False
    then have m: "(k, e) \<in> set c" using Cons.prems by auto
    then have "hash e0 \<noteq> hash e" using Cons.prems(1) a by (force simp: hashesDistinct_def)
    moreover have "find (\<lambda>(cid, e'). hash e' = hash e) c = Some (k, e)"
      using Cons.IH m Cons.prems(1) by (simp add: hashesDistinct_def)
    ultimately show ?thesis using a by simp
  qed
qed

definition cacheInv :: "content_cache \<Rightarrow> bool" where
  "cacheInv c = (keysOk c \<and> hashesDistinct c \<and> length c \<le> CACHE_MAX_SIZE)"

lemma evictOldest_length:
  assumes "keysOk c" "c \<noteq> []"
  shows "Suc (length (evictOldest c)) = length c"
  using evictOldest_split[OF assms] by auto

lemma evictOldest_sub:
  assumes "keysOk c"
  shows "keysOk (evictOldest c) \<and> set (evictOldest c) \<subseteq> set c \<and> (hashesDistinct c \<longrightarrow> hashesDistinct (evictOldest c))"
  using assms
  by (auto simp: evictOldest_def keysOk_filter hashesDistinct_filter AList.delete_eq split: option.splits)

lemma cacheInv_clean: "cacheInv c \<Longrightarrow> cacheInv (cleanExpiredCache now c)"
  unfolding cacheInv_def cleanExpiredCache_def
  using le_trans[OF length_filter_le] by (auto simp: keysOk_filter hashesDistinct_filter)

lemma cacheInv_store:
  assumes "cacheInv c"
  shows "cacheInv (snd (storeContent H env v c))"
proof (cases "\<exists>s. v = Some (JStr s) \<and> s \<noteq> []")
  case False
  then have "snd (storeContent H env v c) = c"
    by (auto simp: storeContent_def split: option.splits json.splits)
  then show ?thesis using assms by simp
next
  case True
  then obtain s where v: "v = Some (JStr s)" and s: "s \<noteq> []" by blast
  show ?thesis
  proof (cases "find (\<lambda>(cid, e). hash e = H s) c")
    case (Some p)
    obtain k e where p: "p = (k, e)" by (cases p)
    have mem: "(k, e) \<in> set c" and h: "hash e = H s" using find_hash_Some[of "H s" c k e] Some p by auto
    have r: "snd (storeContent H env v c) = AList.update k (e\<lparr>lastAccess := now_scan env\<rparr>) c"
      using v s Some p by (simp add: storeContent_def)
    have k: "k \<noteq> []" using mem assms by (force simp: cacheInv_def keysOk_def)
    have d: "distinct (map fst c)" using assms by (simp add: cacheInv_def keysOk_def)
    have 1: "keysOk (AList.update k (e\<lparr>lastAccess := now_scan env\<rparr>) c)"
      using assms k by (simp add: cacheInv_def keysOk_update)
    have 2: "hashesDistinct (AList.update k (e\<lparr>lastAccess := now_scan env\<rparr>) c)"
      using hashes_update_same[OF d mem, of "e\<lparr>lastAccess := now_scan env\<rparr>"] assms
      by (simp add: hashesDistinct_def cacheInv_def)
    have "k \<in> fst ` set c" using mem by force
    then have 3: "length (AList.update k (e\<lparr>lastAccess := now_scan env\<rparr>) c) = length c"
      by (simp add: length_update_present)
    show ?thesis using r 1 2 3 assms by (simp add: cacheInv_def)
  next
    case None
    define cleaned where "cleaned = cleanExpiredCache (now_scan env) c"
    define room where "room = (if length cleaned \<ge> CACHE_MAX_SIZE then evictOldest cleaned else cleaned)"
    define newId where "newId = generateContentId (now_id env) (rnd env)"
    define ne where "ne = \<lparr>content = s, hash = H s, createTime = now_create env, lastAccess = now_access env\<rparr>"
    have r: "snd (storeContent H env v c) = AList.update newId ne room"
      using v s None by (simp add: storeContent_def Let_def cleaned_def room_def newId_def ne_def)
    have ci: "cacheInv cleaned" using assms cacheInv_clean by (simp add: cleaned_def)
    have sub: "set cleaned \<subseteq> set c" by (auto simp: cleaned_def cleanExpiredCache_def)
    have rk: "keysOk room" and rs: "set room \<subseteq> set cleaned" and rh: "hashesDistinct room"
      using evictOldest_sub[of cleaned] ci by (auto simp: room_def cacheInv_def)
    have rl: "length room < CACHE_MAX_SIZE"
    proof (cases "length cleaned \<ge> CACHE_MAX_SIZE")
      case True
      then have "cleaned \<noteq> []" by (auto simp: CACHE_MAX_SIZE_def)
      then have "Suc (length (evictOldest cleaned)) = length cleaned"
        using evictOldest_length ci by (simp add: cacheInv_def)
      then show ?thesis using True ci by (simp add: room_def cacheInv_def)
    next
      case False
      then show ?thesis by (simp add: room_def)
    qed
    have hn: "hash ne \<notin> (\<lambda>(cid, e). hash e) ` set room"
    proof -
      have a: "H s \<notin> (\<lambda>(cid, e). hash e) ` set c" using None by (simp add: find_hash_None)
      have "set room \<subseteq> set c" using rs sub by (rule subset_trans)
      then have b: "(\<lambda>(cid, e). hash e) ` set room \<subseteq> (\<lambda>(cid, e). hash e) ` set c"
        by (rule image_mono)
      have "H s \<notin> (\<lambda>(cid, e). hash e) ` set room"
        using a subsetD[OF b, of "H s"] by (rule contrapos_nn)
      then show ?thesis by (simp add: ne_def)
    qed
    have 1: "keysOk (AList.update newId ne room)"
      using rk generateContentId_nonempty by (simp add: keysOk_update newId_def)
    have 2: "hashesDistinct (AList.update newId ne room)"
      using hashesDistinct_update_new[OF rh hn] .
    have 3: "length (AList.update newId ne room) \<le> CACHE_MAX_SIZE"
      using length_update_le[of newId ne room] rl by simp
    show ?thesis using r 1 2 3 by (simp add: cacheInv_def)
  qed
qed

lemma cacheInv_get:
  assumes "cacheInv c"
  shows "cacheInv (snd (getContent t1 t2 cid c))"
proof (cases "cid = []")
  case True
  then show ?thesis using assms by (simp add: getContent_def)
next
  case False
  show ?thesis
  proof (cases "map_of c cid")
    case None
    then show ?thesis using assms False by (simp add: getContent_def)
  next
    case (Some e)
    show ?thesis
    proof (cases "expired t1 e")
      case True
      then have "snd (getContent t1 t2 cid c) = AList.delete cid c"
        using Some False by (simp add: getContent_def)
      then show ?thesis using assms le_trans[OF length_delete_le]
        by (auto simp: cacheInv_def keysOk_delete hashesDistinct_delete)
    next
      case ne: False
      have r: "snd (getContent t1 t2 cid c) = AList.update cid (e\<lparr>lastAccess := t2\<rparr>) c"
        using Some False ne by (simp add: getContent_def)
      have mem: "(cid, e) \<in> set c" using Some by (simp add: map_of_SomeD)
      have d: "distinct (map fst c)" using assms by (simp add: cacheInv_def keysOk_def)
      have 1: "keysOk (AList.update cid (e\<lparr>lastAccess := t2\<rparr>) c)"
        using assms False by (simp add: cacheInv_def keysOk_update)
      have 2: "hashesDistinct (AList.update cid (e\<lparr>lastAccess := t2\<rparr>) c)"
        using hashes_update_same[OF d mem, of "e\<lparr>lastAccess := t2\<rparr>"] assms
        by (simp add: hashesDistinct_def cacheInv_def)
      have "cid \<in> fst ` set c" using mem by force
      then have 3: "length (AList.update cid (e\<lparr>lastAccess := t2\<rparr>) c) = length c"
        by (simp add: length_update_present)
      show ?thesis using r 1 2 3 assms by (simp add: cacheInv_def)
    qed
  qed
qed

lemma cacheInv_applyOp: "cacheInv c \<Longrightarrow> cacheInv (applyOp H c op)"
  by (cases op) (simp_all add: cacheInv_store cacheInv_get cacheInv_clean, simp add: cacheInv_def keysOk_def hashesDistinct_def clearCache_def)

lemma cacheInv_runOps: "cacheInv c \<Longrightarrow> cacheInv (runOps H ops c)"
  unfolding runOps_def by (induction ops arbitrary: c) (simp_all add: cacheInv_applyOp)

lemma cacheInv_empty: "cacheInv []"
  by (simp add: cacheInv_def keysOk_def hashesDistinct_def)

text \<open>
  Claim C8. After any sequence of \<^verbatim>\<open>storeContent\<close>, \<^verbatim>\<open>getContent\<close>,
  \<^verbatim>\<open>cleanExpiredCache\<close> and \<^verbatim>\<open>clearCache\<close> calls from the empty cache, with any clock
  readings, any generated ids and any hash function, no two entries have the same hash and
  the map holds at most \<^verbatim>\<open>CACHE_MAX_SIZE\<close> = 50 entries.
\<close>

theorem cache_invariants:
  "hashesDistinct (runOps H ops []) \<and> length (runOps H ops []) \<le> CACHE_MAX_SIZE"
  using cacheInv_runOps[OF cacheInv_empty, of H ops] by (simp add: cacheInv_def)

lemmas evalDecimal = generateContentId_def decimal_def digitsOf.simps[of "numeral k" for k]
  digitsOf.simps[of 0] digitsOf.simps[of "Suc 0"] digitChar_def

definition entriesOk :: "(string \<Rightarrow> string) \<Rightarrow> content_cache \<Rightarrow> bool" where
  "entriesOk H cache = list_all (\<lambda>(cid, e). content e \<noteq> [] \<and> hash e = H (content e)) cache"

lemma list_all_update:
  "list_all (\<lambda>(cid, e). P e) c \<Longrightarrow> P v \<Longrightarrow> list_all (\<lambda>(cid, e). P e) (AList.update k v c)"
  by (induction c) auto

lemma entriesOk_store:
  assumes "entriesOk H c"
  shows "entriesOk H (snd (storeContent H env v c))"
proof (cases "\<exists>s. v = Some (JStr s) \<and> s \<noteq> []")
  case False
  then have "snd (storeContent H env v c) = c"
    by (auto simp: storeContent_def split: option.splits json.splits)
  then show ?thesis using assms by simp
next
  case True
  then obtain s where v: "v = Some (JStr s)" and s: "s \<noteq> []" by blast
  show ?thesis
  proof (cases "find (\<lambda>(cid, e). hash e = H s) c")
    case (Some p)
    obtain k e where p: "p = (k, e)" by (cases p)
    have mem: "(k, e) \<in> set c" using find_hash_Some[of "H s" c k e] Some p by auto
    have r: "snd (storeContent H env v c) = AList.update k (e\<lparr>lastAccess := now_scan env\<rparr>) c"
      using v s Some p by (simp add: storeContent_def)
    have "content e \<noteq> [] \<and> hash e = H (content e)"
      using assms mem by (auto simp: entriesOk_def list_all_iff)
    then show ?thesis
      using r assms list_all_update[of "\<lambda>e. content e \<noteq> [] \<and> hash e = H (content e)" c "e\<lparr>lastAccess := now_scan env\<rparr>" k]
      by (simp add: entriesOk_def)
  next
    case None
    define cleaned where "cleaned = cleanExpiredCache (now_scan env) c"
    define room where "room = (if length cleaned \<ge> CACHE_MAX_SIZE then evictOldest cleaned else cleaned)"
    define newId where "newId = generateContentId (now_id env) (rnd env)"
    define ne where "ne = \<lparr>content = s, hash = H s, createTime = now_create env, lastAccess = now_access env\<rparr>"
    have r: "snd (storeContent H env v c) = AList.update newId ne room"
      using v s None by (simp add: storeContent_def Let_def cleaned_def room_def newId_def ne_def)
    have "set room \<subseteq> set c"
      by (auto simp: room_def cleaned_def cleanExpiredCache_def evictOldest_def AList.delete_eq split: option.splits)
    then have "list_all (\<lambda>(cid, e). content e \<noteq> [] \<and> hash e = H (content e)) room"
      using assms by (auto simp: entriesOk_def list_all_iff)
    then show ?thesis
      using r s list_all_update[of "\<lambda>e. content e \<noteq> [] \<and> hash e = H (content e)" room ne newId]
      by (simp add: entriesOk_def ne_def)
  qed
qed

lemma entriesOk_get:
  assumes "entriesOk H c"
  shows "entriesOk H (snd (getContent t1 t2 cid c))"
proof (cases "map_of c cid")
  case None
  then show ?thesis using assms by (simp add: getContent_def)
next
  case (Some e)
  have mem: "(cid, e) \<in> set c" using Some by (simp add: map_of_SomeD)
  have "content e \<noteq> [] \<and> hash e = H (content e)"
    using assms mem by (auto simp: entriesOk_def list_all_iff)
  then have u: "entriesOk H (AList.update cid (e\<lparr>lastAccess := t2\<rparr>) c)"
    using assms list_all_update[of "\<lambda>e. content e \<noteq> [] \<and> hash e = H (content e)" c "e\<lparr>lastAccess := t2\<rparr>" cid]
    by (simp add: entriesOk_def)
  have d: "entriesOk H (AList.delete cid c)"
    using assms by (auto simp: entriesOk_def list_all_iff AList.delete_eq)
  show ?thesis using Some assms u d by (simp add: getContent_def)
qed

lemma entriesOk_applyOp: "entriesOk H c \<Longrightarrow> entriesOk H (applyOp H c op)"
proof (cases op)
  case (Clean now)
  assume "entriesOk H c"
  then show ?thesis using Clean by (auto simp: entriesOk_def list_all_iff cleanExpiredCache_def)
qed (simp_all add: entriesOk_store entriesOk_get, simp add: entriesOk_def clearCache_def)

lemma entriesOk_runOps: "entriesOk H c \<Longrightarrow> entriesOk H (runOps H ops c)"
  unfolding runOps_def by (induction ops arbitrary: c) (simp_all add: entriesOk_applyOp)

text \<open>
  Claim C10. For an argument that is \<^verbatim>\<open>undefined\<close>, \<^verbatim>\<open>null\<close>, a boolean, a number,
  the empty string, an array or an object (every value that is not a non-empty string),
  \<^verbatim>\<open>storeContent\<close> returns \<^verbatim>\<open>{ contentId: null, isNew: false, size: 0 }\<close> and the
  cache map it returns is the cache map it was given: no entry added, none evicted, no
  \<^verbatim>\<open>lastAccess\<close> refreshed.
\<close>

theorem storeContent_rejects_nonstring:
  "storeContent H env None cache = (\<lparr>contentId = None, isNew = False, size_r = 0\<rparr>, cache)
   \<and> storeContent H env (Some JNull) cache = (\<lparr>contentId = None, isNew = False, size_r = 0\<rparr>, cache)
   \<and> storeContent H env (Some (JBool b)) cache = (\<lparr>contentId = None, isNew = False, size_r = 0\<rparr>, cache)
   \<and> storeContent H env (Some (JNum n)) cache = (\<lparr>contentId = None, isNew = False, size_r = 0\<rparr>, cache)
   \<and> storeContent H env (Some (JStr [])) cache = (\<lparr>contentId = None, isNew = False, size_r = 0\<rparr>, cache)
   \<and> storeContent H env (Some (JArr xs)) cache = (\<lparr>contentId = None, isNew = False, size_r = 0\<rparr>, cache)
   \<and> storeContent H env (Some (JObj kvs)) cache = (\<lparr>contentId = None, isNew = False, size_r = 0\<rparr>, cache)"
  by (simp add: storeContent_def nullResult_def)

text \<open>
  Claim C4, as amended. In a cache the operations reach, for an entry whose time since
  its last access exceeds the TTL: \<^verbatim>\<open>getContent\<close> on its id returns \<^verbatim>\<open>null\<close> and
  deletes the entry; \<^verbatim>\<open>storeContent\<close> of the same content after that deletion returns
  the id \<^verbatim>\<open>generateContentId\<close> produces for the call, with \<^verbatim>\<open>isNew = true\<close>, because
  the entry is gone. The dedup scan itself compares hashes only: while the expired entry
  is still in the map, \<^verbatim>\<open>storeContent\<close> of the same content returns the entry's id with
  \<^verbatim>\<open>isNew = false\<close> and refreshes its \<^verbatim>\<open>lastAccess\<close>.
\<close>

theorem expired_entry_get_then_store:
  assumes "cache = runOps H ops []"
    and "map_of cache cid = Some e"
    and "expired t e"
  shows "getContent t t' cid cache = (None, AList.delete cid cache)
       \<and> map_of (AList.delete cid cache) cid = None
       \<and> fst (storeContent H env (Some (JStr (content e))) (AList.delete cid cache))
           = \<lparr>contentId = Some (generateContentId (now_id env) (rnd env)), isNew = True,
              size_r = length (content e)\<rparr>
       \<and> storeContent H env (Some (JStr (content e))) cache
           = (\<lparr>contentId = Some cid, isNew = False, size_r = length (content e)\<rparr>,
              AList.update cid (e\<lparr>lastAccess := now_scan env\<rparr>) cache)"
proof -
  have inv: "cacheInv cache" using assms(1) cacheInv_runOps[OF cacheInv_empty] by simp
  have eok: "entriesOk H cache"
    using assms(1) entriesOk_runOps[of H "[]" ops] by (simp add: entriesOk_def)
  have mem: "(cid, e) \<in> set cache" using assms(2) by (simp add: map_of_SomeD)
  have ce: "content e \<noteq> []" and he: "hash e = H (content e)"
    using eok mem by (auto simp: entriesOk_def list_all_iff)
  have cid: "cid \<noteq> []" using inv mem by (force simp: cacheInv_def keysOk_def)
  have hd: "hashesDistinct cache" and kd: "distinct (map fst cache)"
    using inv by (simp_all add: cacheInv_def keysOk_def)
  have g: "getContent t t' cid cache = (None, AList.delete cid cache)"
    using assms(2,3) cid by (simp add: getContent_def)
  have m: "map_of (AList.delete cid cache) cid = None"
    by (simp add: AList.delete_conv')
  have f: "find (\<lambda>(cid', e'). hash e' = H (content e)) cache = Some (cid, e)"
    using find_hash_unique[OF hd mem] he by simp
  have hit: "storeContent H env (Some (JStr (content e))) cache
           = (\<lparr>contentId = Some cid, isNew = False, size_r = length (content e)\<rparr>,
              AList.update cid (e\<lparr>lastAccess := now_scan env\<rparr>) cache)"
    using f ce by (simp add: storeContent_def)
  have "hash e \<notin> (\<lambda>(cid', e'). hash e') ` set (AList.delete cid cache)"
  proof
    assume "hash e \<in> (\<lambda>(cid', e'). hash e') ` set (AList.delete cid cache)"
    then obtain k' e' where x: "(k', e') \<in> set cache" "k' \<noteq> cid" "hash e' = hash e"
      by (auto simp: AList.delete_eq)
    have "find (\<lambda>(cid', e''). hash e'' = hash e') cache = Some (k', e')"
      using find_hash_unique[OF hd x(1)] .
    with f he x(3) have "(k', e') = (cid, e)" by simp
    with x(2) show False by simp
  qed
  then have "find (\<lambda>(cid', e'). hash e' = H (content e)) (AList.delete cid cache) = None"
    using he by (simp add: find_hash_None)
  then have miss: "fst (storeContent H env (Some (JStr (content e))) (AList.delete cid cache))
           = \<lparr>contentId = Some (generateContentId (now_id env) (rnd env)), isNew = True,
              size_r = length (content e)\<rparr>"
    using ce by (simp add: storeContent_def Let_def)
  show ?thesis using g m miss hit by simp
qed

text \<open>
  Claim C7, as amended. \<^verbatim>\<open>storeContent\<close> of a non-empty content whose hash no entry
  has, into a cache of \<^verbatim>\<open>CACHE_MAX_SIZE\<close> entries, with a generated id that is not
  yet a key:
  \<^item> when no entry is expired at the first clock reading, exactly one entry \<open>(k, e)\<close> is
    removed, every entry before it in insertion order has a strictly later
    \<^verbatim>\<open>lastAccess\<close> and every entry after it a later or equal one, all other entries stay
    in their order and the new entry is appended;
  \<^item> when some entry is expired, \<^verbatim>\<open>cleanExpiredCache\<close> removes every expired entry (at
    least one), the capacity eviction does not run, and the new entry is appended to what
    is left.
\<close>

theorem storeContent_capacity_eviction:
  assumes "keysOk cache"
    and "length cache = CACHE_MAX_SIZE"
    and "c \<noteq> []"
    and "find (\<lambda>(cid, e). hash e = H c) cache = None"
    and "generateContentId (now_id env) (rnd env) \<notin> fst ` set cache"
  shows "(list_all (\<lambda>(cid, e). \<not> expired (now_scan env) e) cache \<longrightarrow>
           (\<exists>pre k e post. cache = pre @ (k, e) # post
              \<and> list_all (\<lambda>(cid', e'). lastAccess e < lastAccess e') pre
              \<and> list_all (\<lambda>(cid', e'). lastAccess e \<le> lastAccess e') post
              \<and> storeContent H env (Some (JStr c)) cache
                  = (\<lparr>contentId = Some (generateContentId (now_id env) (rnd env)), isNew = True,
                      size_r = length c\<rparr>,
                     pre @ post @ [(generateContentId (now_id env) (rnd env),
                        \<lparr>content = c, hash = H c, createTime = now_create env,
                         lastAccess = now_access env\<rparr>)])))
       \<and> (\<not> list_all (\<lambda>(cid, e). \<not> expired (now_scan env) e) cache \<longrightarrow>
            length (cleanExpiredCache (now_scan env) cache) < length cache
            \<and> storeContent H env (Some (JStr c)) cache
                  = (\<lparr>contentId = Some (generateContentId (now_id env) (rnd env)), isNew = True,
                      size_r = length c\<rparr>,
                     cleanExpiredCache (now_scan env) cache @ [(generateContentId (now_id env) (rnd env),
                        \<lparr>content = c, hash = H c, createTime = now_create env,
                         lastAccess = now_access env\<rparr>)]))"
proof (intro conjI impI)
  define newId where "newId = generateContentId (now_id env) (rnd env)"
  define ne where "ne = \<lparr>content = c, hash = H c, createTime = now_create env, lastAccess = now_access env\<rparr>"
  assume live: "list_all (\<lambda>(cid, e). \<not> expired (now_scan env) e) cache"
  then have cl: "cleanExpiredCache (now_scan env) cache = cache"
    by (auto simp: cleanExpiredCache_def list_all_iff intro!: filter_True)
  have ne0: "cache \<noteq> []" using assms(2) by (auto simp: CACHE_MAX_SIZE_def)
  from evictOldest_split[OF assms(1) ne0] obtain pre k e post where
    h: "cache = pre @ (k, e) # post" "evictOldest cache = pre @ post"
       "\<forall>x\<in>set pre. lastAccess e < lastAccess (snd x)"
       "\<forall>x\<in>set post. lastAccess e \<le> lastAccess (snd x)" by blast
  have fresh: "newId \<notin> fst ` set (pre @ post)" using assms(5) h(1) by (auto simp: newId_def)
  have "storeContent H env (Some (JStr c)) cache
          = (\<lparr>contentId = Some newId, isNew = True, size_r = length c\<rparr>, AList.update newId ne (pre @ post))"
    using assms(2,3,4) cl h(2) by (simp add: storeContent_def Let_def newId_def ne_def)
  then have "storeContent H env (Some (JStr c)) cache
          = (\<lparr>contentId = Some newId, isNew = True, size_r = length c\<rparr>, pre @ post @ [(newId, ne)])"
    using update_fresh[OF fresh] by simp
  moreover have "list_all (\<lambda>(cid', e'). lastAccess e < lastAccess e') pre"
    using h(3) by (auto simp: list_all_iff)
  moreover have "list_all (\<lambda>(cid', e'). lastAccess e \<le> lastAccess e') post"
    using h(4) by (auto simp: list_all_iff)
  ultimately show "\<exists>pre k e post. cache = pre @ (k, e) # post
              \<and> list_all (\<lambda>(cid', e'). lastAccess e < lastAccess e') pre
              \<and> list_all (\<lambda>(cid', e'). lastAccess e \<le> lastAccess e') post
              \<and> storeContent H env (Some (JStr c)) cache
                  = (\<lparr>contentId = Some (generateContentId (now_id env) (rnd env)), isNew = True,
                      size_r = length c\<rparr>,
                     pre @ post @ [(generateContentId (now_id env) (rnd env),
                        \<lparr>content = c, hash = H c, createTime = now_create env,
                         lastAccess = now_access env\<rparr>)])"
    using h(1) unfolding newId_def ne_def by blast
next
  assume dead: "\<not> list_all (\<lambda>(cid, e). \<not> expired (now_scan env) e) cache"
  then obtain k0 e0 where x: "(k0, e0) \<in> set cache" "expired (now_scan env) e0"
    by (auto simp: list_all_iff)
  show lt: "length (cleanExpiredCache (now_scan env) cache) < length cache"
    unfolding cleanExpiredCache_def using x by (intro length_filter_less[of "(k0, e0)"]) auto
  have fresh: "generateContentId (now_id env) (rnd env) \<notin> fst ` set (cleanExpiredCache (now_scan env) cache)"
    using assms(5) by (auto simp: cleanExpiredCache_def)
  show "storeContent H env (Some (JStr c)) cache
                  = (\<lparr>contentId = Some (generateContentId (now_id env) (rnd env)), isNew = True,
                      size_r = length c\<rparr>,
                     cleanExpiredCache (now_scan env) cache @ [(generateContentId (now_id env) (rnd env),
                        \<lparr>content = c, hash = H c, createTime = now_create env,
                         lastAccess = now_access env\<rparr>)])"
    using assms(2,3,4) lt update_fresh[OF fresh] by (simp add: storeContent_def Let_def)
qed

subsection \<open>A full cache that the operations reach\<close>

text \<open>
  The examples use the values of \<^verbatim>\<open>generateHash\<close> on the contents they store:
  \<open>exampleHash\<close> is the first 16 hexadecimal digits of the MD5 digest of
  \<^verbatim>\<open>abc\<close>, of \<^verbatim>\<open>new doc\<close> and of \<^verbatim>\<open>doc0\<close> .. \<^verbatim>\<open>doc49\<close>. \<open>envAt t r\<close> is a
  call all of whose clock readings are \<open>t\<close> and whose random suffix is \<open>r\<close>.
  \<open>fullCache\<close> is the cache after \<^verbatim>\<open>doc0\<close> .. \<^verbatim>\<open>doc49\<close> were stored into the empty
  cache at the times 0 .. 49.
\<close>

definition exampleDocs :: "(string \<times> string) list" where
  "exampleDocs =
    [(''doc0'', ''d0a2a64ae1d0c163''), (''doc1'', ''83e4b1789306d3d1''),
     (''doc2'', ''271559ec25268bb9''), (''doc3'', ''af75c71ac23e1156''),
     (''doc4'', ''b2341b7b98aa9592''), (''doc5'', ''84299cc177f9bb24''),
     (''doc6'', ''b1f936e714c08ee3''), (''doc7'', ''107aebea70acce94''),
     (''doc8'', ''a75a8a6db113a9fc''), (''doc9'', ''bf26b7f1ffd6049a''),
     (''doc10'', ''dbc8967458a9e337''), (''doc11'', ''e009d9915d5d76f4''),
     (''doc12'', ''cf1a2a9c8dfb765c''), (''doc13'', ''b40869c1611a9c5b''),
     (''doc14'', ''0cf97449fb4d7142''), (''doc15'', ''cb3f46b531b7ee9c''),
     (''doc16'', ''a1e81c56d5c6505b''), (''doc17'', ''ca6cc6b92f64a088''),
     (''doc18'', ''3eb01e876cbed0d2''), (''doc19'', ''5aa904f6bcc64b80''),
     (''doc20'', ''1fcd4fca56c92654''), (''doc21'', ''f86757054d1d9119''),
     (''doc22'', ''ccdd2c69cc742af9''), (''doc23'', ''55444f1f3a9fb671''),
     (''doc24'', ''39a799c4bce8b3c3''), (''doc25'', ''e7faa192a106e063''),
     (''doc26'', ''90a86ad0813431f3''), (''doc27'', ''d855dbe46601f0f1''),
     (''doc28'', ''a08be1167eeb2ad0''), (''doc29'', ''000ecb96f86a92c0''),
     (''doc30'', ''182646b378806b99''), (''doc31'', ''5921ae35d509ad87''),
     (''doc32'', ''4bd4bfaffa9d992e''), (''doc33'', ''ac655917c8afb565''),
     (''doc34'', ''710d051a37512d2b''), (''doc35'', ''1d71670410936e0a''),
     (''doc36'', ''3572ec85399683a2''), (''doc37'', ''36f185f507d2dd78''),
     (''doc38'', ''61a21f2c2bb136b7''), (''doc39'', ''c5835d0291aa8892''),
     (''doc40'', ''97bbf4c46d31e8b0''), (''doc41'', ''f7013964e1b4f722''),
     (''doc42'', ''255c5c2b8d68a9f1''), (''doc43'', ''4b05de6a3ed107f3''),
     (''doc44'', ''b61f8f704ddf231d''), (''doc45'', ''a5b7c531a7c964b7''),
     (''doc46'', ''cbcbaa184b56c374''), (''doc47'', ''26b106d440347fdd''),
     (''doc48'', ''b0c2f5707a625731''), (''doc49'', ''3e52c6aeb6942c09'')]"

definition exampleHash :: "string \<Rightarrow> string" where
  "exampleHash c =
     (case map_of ((''abc'', ''900150983cd24fb0'') # (''new doc'', ''a5f7ea89548608de'') # exampleDocs) c of
        Some h \<Rightarrow> h
      | None \<Rightarrow> [])"

definition envAt :: "int \<Rightarrow> string \<Rightarrow> store_env" where
  "envAt t r = \<lparr>now_scan = t, now_id = t, rnd = r, now_create = t, now_access = t\<rparr>"

definition storeOps :: "(store_env \<times> string) list \<Rightarrow> cache_op list" where
  "storeOps xs = map (\<lambda>(env, c). Store env (Some (JStr c))) xs"

definition storedEntries :: "(string \<Rightarrow> string) \<Rightarrow> (store_env \<times> string) list \<Rightarrow> content_cache" where
  "storedEntries H xs =
     map (\<lambda>(env, c). (generateContentId (now_id env) (rnd env),
        \<lparr>content = c, hash = H c, createTime = now_create env, lastAccess = now_access env\<rparr>)) xs"

lemma store_appends:
  assumes "c \<noteq> []"
    and "H c \<notin> (\<lambda>(cid, e). hash e) ` set cache"
    and "list_all (\<lambda>(cid, e). \<not> expired (now_scan env) e) cache"
    and "length cache < CACHE_MAX_SIZE"
    and "generateContentId (now_id env) (rnd env) \<notin> fst ` set cache"
  shows "snd (storeContent H env (Some (JStr c)) cache)
         = cache @ [(generateContentId (now_id env) (rnd env),
              \<lparr>content = c, hash = H c, createTime = now_create env, lastAccess = now_access env\<rparr>)]"
proof -
  have cl: "cleanExpiredCache (now_scan env) cache = cache"
    using assms(3) by (auto simp: cleanExpiredCache_def list_all_iff intro!: filter_True)
  have f: "find (\<lambda>(cid, e). hash e = H c) cache = None" using assms(2) by (simp add: find_hash_None)
  show ?thesis
    using assms(1,4) cl f update_fresh[OF assms(5)] by (simp add: storeContent_def Let_def)
qed

lemma runOps_snoc: "runOps H (ops @ [op]) cache = applyOp H (runOps H ops cache) op"
  by (simp add: runOps_def)

lemma runOps_storeOps:
  assumes "list_all (\<lambda>(env, c). c \<noteq> [] \<and> now_scan env \<le> hi \<and> lo \<le> now_access env) xs"
    and "hi - lo \<le> CACHE_TTL"
    and "distinct (map (\<lambda>(env, c). H c) xs)"
    and "distinct (map (\<lambda>(env, c). generateContentId (now_id env) (rnd env)) xs)"
    and "length xs \<le> CACHE_MAX_SIZE"
  shows "runOps H (storeOps xs) [] = storedEntries H xs"
  using assms
proof (induction xs rule: rev_induct)
  case Nil
  then show ?case by (simp add: runOps_def storeOps_def storedEntries_def)
next
  case (snoc x xs)
  obtain env c where x: "x = (env, c)" by (cases x)
  have ih: "runOps H (storeOps xs) [] = storedEntries H xs" using snoc by simp
  have c: "c \<noteq> []" and hi: "now_scan env \<le> hi" using snoc.prems(1) x by auto
  have 2: "H c \<notin> (\<lambda>(cid, e). hash e) ` set (storedEntries H xs)"
    using snoc.prems(3) x by (auto simp: storedEntries_def)
  have 3: "list_all (\<lambda>(cid, e). \<not> expired (now_scan env) e) (storedEntries H xs)"
    using snoc.prems(1,2) hi by (auto simp: storedEntries_def list_all_iff expired_def)
  have 4: "length (storedEntries H xs) < CACHE_MAX_SIZE"
    using snoc.prems(5) by (simp add: storedEntries_def)
  have 5: "generateContentId (now_id env) (rnd env) \<notin> fst ` set (storedEntries H xs)"
    using snoc.prems(4) x by (auto simp: storedEntries_def)
  have "runOps H (storeOps (xs @ [x])) [] = snd (storeContent H env (Some (JStr c)) (storedEntries H xs))"
    using ih x by (simp add: storeOps_def runOps_snoc)
  then show ?case using store_appends[where H=H and c=c and env=env and cache="storedEntries H xs", OF c 2 3 4 5] x by (simp add: storedEntries_def)
qed

definition fillContents :: "(store_env \<times> string) list" where
  "fillContents = map (\<lambda>(t, c, h). (envAt t ''r'', c)) (zip (0 # 1 # [2..49]) exampleDocs)"

definition fullCache :: content_cache where
  "fullCache = runOps exampleHash (storeOps fillContents) []"

lemma exampleHash_abc: "exampleHash ''abc'' = ''900150983cd24fb0''"
  by (simp add: exampleHash_def)

lemma exampleHash_new: "exampleHash ''new doc'' = ''a5f7ea89548608de''"
  by (simp add: exampleHash_def)

lemma exampleDocs_keys: "distinct (map fst ((''abc'', ''900150983cd24fb0'') # (''new doc'', ''a5f7ea89548608de'') # exampleDocs))"
  by (simp add: exampleDocs_def)

lemma exampleHash_docs: "(c, h) \<in> set exampleDocs \<Longrightarrow> exampleHash c = h"
  using map_of_is_SomeI[OF exampleDocs_keys, of c h] by (simp add: exampleHash_def)

lemma fullCache_entries:
  "fullCache = map (\<lambda>(t, c, h). (generateContentId t ''r'',
       \<lparr>content = c, hash = h, createTime = t, lastAccess = t\<rparr>)) (zip (0 # 1 # [2..49]) exampleDocs)"
proof -
  have e: "storedEntries exampleHash fillContents
      = map (\<lambda>(t, c, h). (generateContentId t ''r'',
       \<lparr>content = c, hash = h, createTime = t, lastAccess = t\<rparr>)) (zip (0 # 1 # [2..49]) exampleDocs)"
    unfolding storedEntries_def fillContents_def map_map
    by (rule map_cong) (auto simp: envAt_def dest!: set_zip_rightD exampleHash_docs)
  have "fullCache = storedEntries exampleHash fillContents"
    unfolding fullCache_def
  proof (rule runOps_storeOps[where hi = 49 and lo = 0])
    show "list_all (\<lambda>(env, c). c \<noteq> [] \<and> now_scan env \<le> 49 \<and> 0 \<le> now_access env) fillContents"
      by (simp add: fillContents_def exampleDocs_def upto_rec_numeral envAt_def)
    show "49 - 0 \<le> CACHE_TTL" by (simp add: CACHE_TTL_def)
    have "map (\<lambda>(env, c). exampleHash c) fillContents = map (\<lambda>(t, c, h). h) (zip (0 # 1 # [2..49]) exampleDocs)"
      unfolding fillContents_def map_map
      by (rule map_cong) (auto dest!: set_zip_rightD exampleHash_docs)
    then show "distinct (map (\<lambda>(env, c). exampleHash c) fillContents)"
      by (simp add: exampleDocs_def upto_rec_numeral)
    show "distinct (map (\<lambda>(env, c). generateContentId (now_id env) (rnd env)) fillContents)"
      by (simp add: fillContents_def exampleDocs_def upto_rec_numeral envAt_def evalDecimal)
    show "length fillContents \<le> CACHE_MAX_SIZE"
      by (simp add: fillContents_def exampleDocs_def upto_rec_numeral CACHE_MAX_SIZE_def)
  qed
  with e show ?thesis by simp
qed

lemmas evalStore = storeContent_def getContent_def runOps_def cleanExpiredCache_def expired_def
  CACHE_TTL_def CACHE_MAX_SIZE_def envAt_def Let_def evalDecimal exampleHash_abc exampleHash_new

lemmas evalFull = fullCache_entries exampleDocs_def upto_rec_numeral evalDecimal

text \<open>
  Claim C4 as stated says that dedup applies only to entries that are not expired.
  \<^verbatim>\<open>abc\<close> is stored at time 0; at time 7200001 the entry is expired (7200001 - 0 >
  7200000) and \<^verbatim>\<open>storeContent("abc")\<close> returns the expired entry's id with
  \<^verbatim>\<open>isNew = false\<close>.
\<close>

theorem dedup_ignores_expiry_counterexample:
  "map_of (runOps exampleHash [Store (envAt 0 ''r'') (Some (JStr ''abc''))] []) ''content_0_r''
     = Some \<lparr>content = ''abc'', hash = ''900150983cd24fb0'', createTime = 0, lastAccess = 0\<rparr>
   \<and> expired 7200001 \<lparr>content = ''abc'', hash = ''900150983cd24fb0'', createTime = 0, lastAccess = 0\<rparr>
   \<and> fst (storeContent exampleHash (envAt 7200001 ''q'') (Some (JStr ''abc''))
          (runOps exampleHash [Store (envAt 0 ''r'') (Some (JStr ''abc''))] []))
       = \<lparr>contentId = Some ''content_0_r'', isNew = False, size_r = 3\<rparr>"
  by (simp add: evalStore)

text \<open>
  The amended claim at the same entry: \<^verbatim>\<open>getContent\<close> at time 7200001 reports it
  absent and empties the cache, and the later \<^verbatim>\<open>storeContent("abc")\<close> returns a newly
  generated id.
\<close>

theorem expired_entry_get_then_store_witness:
  "getContent 7200001 7200001 ''content_0_r''
      (runOps exampleHash [Store (envAt 0 ''r'') (Some (JStr ''abc''))] [])
     = (None, [])
   \<and> fst (storeContent exampleHash (envAt 7200005 ''q'') (Some (JStr ''abc'')) [])
     = \<lparr>contentId = Some ''content_7200005_q'', isNew = True, size_r = 3\<rparr>"
proof -
  define e0 where "e0 = \<lparr>content = ''abc'', hash = ''900150983cd24fb0'', createTime = 0, lastAccess = 0\<rparr>"
  have c: "runOps exampleHash [Store (envAt 0 ''r'') (Some (JStr ''abc''))] [] = [(''content_0_r'', e0)]"
    by (simp add: e0_def evalStore)
  have m: "map_of (runOps exampleHash [Store (envAt 0 ''r'') (Some (JStr ''abc''))] []) ''content_0_r'' = Some e0"
    by (simp add: c)
  have x: "expired 7200001 e0" by (simp add: e0_def expired_def CACHE_TTL_def)
  note r = expired_entry_get_then_store[OF refl m x, of 7200001 "envAt 7200005 ''q''", unfolded c]
  show ?thesis unfolding c using r by (simp add: e0_def envAt_def evalDecimal)
qed

text \<open>
  Claim C7 as stated says that exactly one entry is evicted from a full cache. At time
  7200002 the entries last accessed at 0 and at 1 are both expired: storing new content
  into the full cache removes both, and the result is the other 48 entries and the new
  one.
\<close>

theorem capacity_eviction_counterexample:
  "length fullCache = CACHE_MAX_SIZE
   \<and> snd (storeContent exampleHash (envAt 7200002 ''r'') (Some (JStr ''new doc'')) fullCache)
     = drop 2 fullCache @
       [(''content_7200002_r'',
         \<lparr>content = ''new doc'', hash = ''a5f7ea89548608de'', createTime = 7200002,
          lastAccess = 7200002\<rparr>)]"
  by (simp add: evalFull evalStore)

text \<open>
  The amended claim on the full cache at time 100, when nothing is expired.
\<close>

theorem storeContent_capacity_eviction_witness:
  "keysOk fullCache \<and> length fullCache = CACHE_MAX_SIZE
   \<and> (\<exists>pre k e post. fullCache = pre @ (k, e) # post
        \<and> storeContent exampleHash (envAt 100 ''r'') (Some (JStr ''new doc'')) fullCache
          = (\<lparr>contentId = Some ''content_100_r'', isNew = True, size_r = 7\<rparr>,
             pre @ post @ [(''content_100_r'',
               \<lparr>content = ''new doc'', hash = ''a5f7ea89548608de'', createTime = 100,
                lastAccess = 100\<rparr>)]))"
proof -
  have k: "keysOk fullCache" by (simp add: evalFull keysOk_def)
  have l: "length fullCache = CACHE_MAX_SIZE" by (simp add: evalFull CACHE_MAX_SIZE_def)
  have n: "''new doc'' \<noteq> []" by simp
  have f: "find (\<lambda>(cid, e). hash e = exampleHash ''new doc'') fullCache = None"
    by (simp add: evalFull exampleHash_new)
  have i: "generateContentId (now_id (envAt 100 ''r'')) (rnd (envAt 100 ''r'')) \<notin> fst ` set fullCache"
    by (simp add: evalFull envAt_def)
  have a: "list_all (\<lambda>(cid, e). \<not> expired (now_scan (envAt 100 ''r'')) e) fullCache"
    by (simp add: evalFull envAt_def expired_def CACHE_TTL_def)
  from storeContent_capacity_eviction[where H=exampleHash and c="''new doc''" and env="envAt 100 ''r''" and cache=fullCache, OF k l n f i, THEN conjunct1, THEN mp, OF a]
  obtain pre k' e post where
    "fullCache = pre @ (k', e) # post"
    "storeContent exampleHash (envAt 100 ''r'') (Some (JStr ''new doc'')) fullCache
      = (\<lparr>contentId = Some (generateContentId (now_id (envAt 100 ''r'')) (rnd (envAt 100 ''r''))),
          isNew = True, size_r = length ''new doc''\<rparr>,
         pre @ post @ [(generateContentId (now_id (envAt 100 ''r'')) (rnd (envAt 100 ''r'')),
            \<lparr>content = ''new doc'', hash = exampleHash ''new doc'',
             createTime = now_create (envAt 100 ''r''), lastAccess = now_access (envAt 100 ''r'')\<rparr>)])"
    by blast
  then have "\<exists>pre k e post. fullCache = pre @ (k, e) # post
        \<and> storeContent exampleHash (envAt 100 ''r'') (Some (JStr ''new doc'')) fullCache
          = (\<lparr>contentId = Some ''content_100_r'', isNew = True, size_r = 7\<rparr>,
             pre @ post @ [(''content_100_r'',
               \<lparr>content = ''new doc'', hash = ''a5f7ea89548608de'', createTime = 100,
                lastAccess = 100\<rparr>)])"
    by (simp add: envAt_def evalDecimal exampleHash_new) blast
  with k l show ?thesis by blast
qed

section \<open>The tool-call parser: server/tools/toolParser.cjs\<close>

text \<open>
  The regular expressions of the module are matched by hand-written matchers. A matcher
  takes the text from a start position on and says whether (or what) the pattern matches
  there; \<^verbatim>\<open>pattern.exec(response)\<close> of a regular expression without the \<^verbatim>\<open>g\<close> flag
  returns the match at the least start position that has one.

  Every pattern of the module is a sequence of literals, \<^verbatim>\<open>\s*\<close> runs, negated character
  classes and brace groups in which the token after a repetition cannot be matched by the
  repetition itself (a whitespace run is followed by a character that is not whitespace,
  \<^verbatim>\<open>[^"]+\<close> by a quote, \<^verbatim>\<open>[^}]*\<close> by a closing brace, \<^verbatim>\<open>[^{}]\<close> items by a brace).
  So at a given start position there is at most one way to match, backtracking never
  finds another, and the matchers below read the text once from left to right.

  \<^verbatim>\<open>\s\<close> and \<^verbatim>\<open>trim()\<close> use the same set of white space and line terminators; among
  the code units below 256 these are tab, line feed, vertical tab, form feed, carriage
  return, space and the no-break space.
\<close>

definition isSpace :: "char \<Rightarrow> bool" where
  "isSpace c = (c \<in> set [CHR 0x09, CHR 0x0A, CHR 0x0B, CHR 0x0C, CHR 0x0D, CHR 0x20, CHR 0xA0])"

definition skipSpaces :: "string \<Rightarrow> string" where
  "skipSpaces s = dropWhile isSpace s"

definition trim :: "string \<Rightarrow> string" where
  "trim s = rev (skipSpaces (rev (skipSpaces s)))"

definition stripPrefix :: "string \<Rightarrow> string \<Rightarrow> string option" where
  "stripPrefix p s = (if take (length p) s = p then Some (drop (length p) s) else None)"

text \<open>\<^verbatim>\<open>match.index\<close>: the least position at which the pattern matches.\<close>

fun regexIndex :: "(string \<Rightarrow> bool) \<Rightarrow> string \<Rightarrow> nat option" where
  "regexIndex p [] = (if p [] then Some 0 else None)"
| "regexIndex p (c # cs) = (if p (c # cs) then Some 0 else map_option Suc (regexIndex p cs))"

text \<open>
  The three patterns of \<^verbatim>\<open>extractContentBeforeToolCall\<close>:
  \<^verbatim>\<open>/TOOL_CALL:\s*\{/\<close>, \<^verbatim>\<open>/```json\s*TOOL_CALL:/\<close> and \<^verbatim>\<open>/\{\s*"tool_name"\s*:/\<close>.
\<close>

definition atToolCallBrace :: "string \<Rightarrow> bool" where
  "atToolCallBrace s =
     (case stripPrefix ''TOOL_CALL:'' s of
        None \<Rightarrow> False
      | Some r \<Rightarrow> (case skipSpaces r of [] \<Rightarrow> False | c # _ \<Rightarrow> c = CHR ''{''))"

definition atFencedToolCall :: "string \<Rightarrow> bool" where
  "atFencedToolCall s =
     (case stripPrefix ''```json'' s of
        None \<Rightarrow> False
      | Some r \<Rightarrow> stripPrefix ''TOOL_CALL:'' (skipSpaces r) \<noteq> None)"

definition atToolNameKey :: "string \<Rightarrow> bool" where
  \<open>atToolNameKey s =
     (case s of
        [] \<Rightarrow> False
      | c # r \<Rightarrow>
          c = CHR ''{'' \<and>
          (case stripPrefix ''"tool_name"'' (skipSpaces r) of
             None \<Rightarrow> False
           | Some r2 \<Rightarrow> (case skipSpaces r2 of [] \<Rightarrow> False | d # _ \<Rightarrow> d = CHR '':'')))\<close>

text \<open>
  The loop over the three patterns keeps the least index found; \<open>-1\<close> is "none yet".
\<close>

definition updateFirst :: "int \<Rightarrow> nat option \<Rightarrow> int" where
  "updateFirst firstToolCallIndex m =
     (case m of
        None \<Rightarrow> firstToolCallIndex
      | Some i \<Rightarrow>
          if firstToolCallIndex = - 1 \<or> int i < firstToolCallIndex then int i
          else firstToolCallIndex)"

definition firstToolCallIndex :: "string \<Rightarrow> int" where
  "firstToolCallIndex response =
     foldl updateFirst (- 1)
       [regexIndex atToolCallBrace response, regexIndex atFencedToolCall response,
        regexIndex atToolNameKey response]"

text \<open>
  \<^verbatim>\<open>extractContentBeforeToolCall(response)\<close> on a string (both routes pass the model's
  reply, a string). The empty string is falsy and returned as it is.
\<close>

definition extractContentBeforeToolCall :: "string \<Rightarrow> string" where
  "extractContentBeforeToolCall response =
     (if response = [] then response
      else if firstToolCallIndex response > 0
        then trim (take (nat (firstToolCallIndex response)) response)
      else if firstToolCallIndex response = 0 then []
      else response)"

text \<open>Marker-like text: what any of the three patterns matches.\<close>

definition markerAt :: "string \<Rightarrow> bool" where
  "markerAt s = (atToolCallBrace s \<or> atFencedToolCall s \<or> atToolNameKey s)"

subsection \<open>The visible prefix\<close>

lemma regexIndex_None: "regexIndex p s = None \<longleftrightarrow> (\<forall>i \<le> length s. \<not> p (drop i s))"
proof (induction s)
  case Nil
  then show ?case by simp
next
  case (Cons c cs)
  show ?case
  proof
    assume a: "regexIndex p (c # cs) = None"
    then have h: "\<not> p (c # cs)" and r: "regexIndex p cs = None" by (auto split: if_splits)
    show "\<forall>i \<le> length (c # cs). \<not> p (drop i (c # cs))"
    proof (intro allI impI)
      fix i assume "i \<le> length (c # cs)"
      then show "\<not> p (drop i (c # cs))" using h r Cons.IH by (cases i) auto
    qed
  next
    assume a: "\<forall>i \<le> length (c # cs). \<not> p (drop i (c # cs))"
    then have "\<not> p (drop 0 (c # cs))" by blast
    then have h: "\<not> p (c # cs)" by simp
    have "\<forall>i \<le> length cs. \<not> p (drop i cs)"
    proof (intro allI impI)
      fix i assume "i \<le> length cs"
      then have "\<not> p (drop (Suc i) (c # cs))" using a by (metis Suc_le_mono length_Cons)
      then show "\<not> p (drop i cs)" by simp
    qed
    then show "regexIndex p (c # cs) = None" using h Cons.IH by simp
  qed
qed

lemma regexIndex_Some:
  "regexIndex p s = Some i \<longleftrightarrow> i \<le> length s \<and> p (drop i s) \<and> (\<forall>j<i. \<not> p (drop j s))"
proof (induction s arbitrary: i)
  case Nil
  then show ?case by auto
next
  case (Cons c cs)
  show ?case
  proof (cases "p (c # cs)")
    case True
    have "(i \<le> length (c # cs) \<and> p (drop i (c # cs)) \<and> (\<forall>j<i. \<not> p (drop j (c # cs)))) \<longleftrightarrow> i = 0"
    proof
      assume a: "i \<le> length (c # cs) \<and> p (drop i (c # cs)) \<and> (\<forall>j<i. \<not> p (drop j (c # cs)))"
      show "i = 0"
      proof (rule ccontr)
        assume "i \<noteq> 0"
        then have "\<not> p (drop 0 (c # cs))" using a by blast
        then show False using True by simp
      qed
    next
      assume "i = 0"
      then show "i \<le> length (c # cs) \<and> p (drop i (c # cs)) \<and> (\<forall>j<i. \<not> p (drop j (c # cs)))"
        using True by simp
    qed
    then show ?thesis using True by auto
  next
    case False
    show ?thesis
    proof (cases i)
      case 0
      then show ?thesis using False by simp
    next
      case (Suc k)
      have "(\<forall>j<Suc k. \<not> p (drop j (c # cs))) \<longleftrightarrow> (\<forall>j<k. \<not> p (drop j cs))"
      proof
        assume a: "\<forall>j<Suc k. \<not> p (drop j (c # cs))"
        show "\<forall>j<k. \<not> p (drop j cs)"
        proof (intro allI impI)
          fix j assume "j < k"
          then have "\<not> p (drop (Suc j) (c # cs))" using a by (metis Suc_less_eq)
          then show "\<not> p (drop j cs)" by simp
        qed
      next
        assume a: "\<forall>j<k. \<not> p (drop j cs)"
        show "\<forall>j<Suc k. \<not> p (drop j (c # cs))"
        proof (intro allI impI)
          fix j assume "j < Suc k"
          then show "\<not> p (drop j (c # cs))" using a False by (cases j) auto
        qed
      qed
      then show ?thesis using Suc False Cons.IH[of k] by auto
    qed
  qed
qed

lemma regexIndex_disj:
  "regexIndex (\<lambda>s. p s \<or> q s) s =
     (case regexIndex p s of
        None \<Rightarrow> regexIndex q s
      | Some a \<Rightarrow> (case regexIndex q s of None \<Rightarrow> Some a | Some b \<Rightarrow> Some (min a b)))"
  by (induction s) (auto split: option.splits)

lemma firstToolCallIndex_markerAt:
  "firstToolCallIndex s = (case regexIndex markerAt s of None \<Rightarrow> - 1 | Some i \<Rightarrow> int i)"
proof -
  have m: "markerAt = (\<lambda>s. atToolCallBrace s \<or> (atFencedToolCall s \<or> atToolNameKey s))"
    by (auto simp: markerAt_def fun_eq_iff)
  show ?thesis
    unfolding m regexIndex_disj firstToolCallIndex_def
    by (auto simp: updateFirst_def split: option.splits)
qed

lemma markerAt_Nil: "\<not> markerAt []"
  by (simp add: markerAt_def atToolCallBrace_def atFencedToolCall_def atToolNameKey_def stripPrefix_def)

text \<open>
  Claim C3, as amended. For every text: when no position of the text starts marker-like
  text, \<^verbatim>\<open>extractContentBeforeToolCall\<close> returns the text unchanged; when the text starts
  with a marker, it returns the empty string; and when the first marker starts at a
  position \<open>i > 0\<close>, it returns the text before that position with the white space at
  its two ends removed (\<^verbatim>\<open>substring(0, i).trim()\<close>), whether or not the marker decodes
  to a tool call.
\<close>

theorem extractContentBeforeToolCall_cases:
  "((\<forall>i \<le> length s. \<not> markerAt (drop i s)) \<longrightarrow> extractContentBeforeToolCall s = s)
   \<and> (markerAt s \<longrightarrow> extractContentBeforeToolCall s = [])
   \<and> (0 < i \<and> i \<le> length s \<and> markerAt (drop i s) \<and> (\<forall>j<i. \<not> markerAt (drop j s))
        \<longrightarrow> extractContentBeforeToolCall s = trim (take i s))"
proof (intro conjI impI)
  assume "\<forall>i \<le> length s. \<not> markerAt (drop i s)"
  then have "regexIndex markerAt s = None" by (simp add: regexIndex_None)
  then show "extractContentBeforeToolCall s = s"
    by (simp add: extractContentBeforeToolCall_def firstToolCallIndex_markerAt)
next
  assume a: "markerAt s"
  then have "regexIndex markerAt s = Some 0" by (simp add: regexIndex_Some)
  moreover have "s \<noteq> []" using a markerAt_Nil by auto
  ultimately show "extractContentBeforeToolCall s = []"
    by (simp add: extractContentBeforeToolCall_def firstToolCallIndex_markerAt)
next
  assume a: "0 < i \<and> i \<le> length s \<and> markerAt (drop i s) \<and> (\<forall>j<i. \<not> markerAt (drop j s))"
  then have "regexIndex markerAt s = Some i" by (simp add: regexIndex_Some)
  moreover have "s \<noteq> []" using a by auto
  ultimately show "extractContentBeforeToolCall s = trim (take i s)"
    using a by (simp add: extractContentBeforeToolCall_def firstToolCallIndex_markerAt)
qed

lemmas evalMarkers = markerAt_def atToolCallBrace_def atFencedToolCall_def atToolNameKey_def
  stripPrefix_def skipSpaces_def isSpace_def trim_def

text \<open>
  Claim C3 as stated says that the result is exactly the substring before the first
  marker. In \<^verbatim>\<open>Hi TOOL_CALL: {\<close> the marker starts at position 3, the substring before it
  is \<^verbatim>\<open>Hi\<close> followed by a space, and the function returns \<^verbatim>\<open>Hi\<close> without the space.
\<close>

theorem extractContentBeforeToolCall_trims_counterexample:
  "extractContentBeforeToolCall ''Hi TOOL_CALL: {'' = ''Hi''
   \<and> firstToolCallIndex ''Hi TOOL_CALL: {'' = 3
   \<and> take 3 ''Hi TOOL_CALL: {'' = ''Hi ''"
  by (simp add: extractContentBeforeToolCall_def firstToolCallIndex_def updateFirst_def evalMarkers)

text \<open>
  The three cases of the amended claim, each at a text that satisfies its hypothesis.
\<close>

theorem extractContentBeforeToolCall_cases_witness:
  "extractContentBeforeToolCall ''Hi there.'' = ''Hi there.''
   \<and> extractContentBeforeToolCall ''TOOL_CALL: {}'' = []
   \<and> extractContentBeforeToolCall ''Hi TOOL_CALL: {'' = ''Hi''"
proof -
  have "regexIndex markerAt ''Hi there.'' = None" by (simp add: evalMarkers)
  then have 1: "\<forall>i \<le> length ''Hi there.''. \<not> markerAt (drop i ''Hi there.'')"
    unfolding regexIndex_None .
  have 2: "markerAt ''TOOL_CALL: {}''" by (simp add: evalMarkers)
  have "regexIndex markerAt ''Hi TOOL_CALL: {'' = Some 3" by (simp add: evalMarkers)
  then have 3: "0 < (3::nat) \<and> 3 \<le> length ''Hi TOOL_CALL: {'' \<and> markerAt (drop 3 ''Hi TOOL_CALL: {'')
      \<and> (\<forall>j<3. \<not> markerAt (drop j ''Hi TOOL_CALL: {''))"
    unfolding regexIndex_Some by simp
  have t: "trim (take 3 ''Hi TOOL_CALL: {'') = ''Hi''" by (simp add: evalMarkers)
  show ?thesis
    using extractContentBeforeToolCall_cases[of "''Hi there.''", THEN conjunct1, THEN mp, OF 1]
      extractContentBeforeToolCall_cases[of "''TOOL_CALL: {}''", THEN conjunct2, THEN conjunct1, THEN mp, OF 2]
      extractContentBeforeToolCall_cases[of "''Hi TOOL_CALL: {''" 3, THEN conjunct2, THEN conjunct2, THEN mp, OF 3]
      t
    by simp
qed

subsection \<open>Decoding a tool call\<close>

text \<open>
  \<^verbatim>\<open>pattern.exec(response)\<close> with capture groups: the match at the least start position.
\<close>

fun regexExec :: "(string \<Rightarrow> 'a option) \<Rightarrow> string \<Rightarrow> 'a option" where
  "regexExec m [] = m []"
| "regexExec m (c # cs) = (case m (c # cs) of Some r \<Rightarrow> Some r | None \<Rightarrow> regexExec m cs)"

record regex_match =
  whole :: string
  group1 :: string
  group2 :: string

text \<open>\<open>matched s rest\<close>: what a match consumed of \<open>s\<close> when \<open>rest\<close> is left.\<close>

definition matched :: "string \<Rightarrow> string \<Rightarrow> string" where
  "matched s rest = take (length s - length rest) s"

text \<open>
  The brace group of patterns 1 and 2,
  \<^verbatim>\<open>\{(?:[^{}]|\{(?:[^{}]|\{[^{}]*\})*\})*\}\<close>: balanced braces nested at most three deep.
  \<open>braceBody depth\<close> reads the text after an opening brace at the given depth up to the
  brace that closes the outermost group and returns what follows it.
\<close>

fun braceBody :: "nat \<Rightarrow> string \<Rightarrow> string option" where
  "braceBody depth [] = None"
| "braceBody depth (c # cs) =
     (if c = CHR ''}'' then (if depth \<le> 1 then Some cs else braceBody (depth - 1) cs)
      else if c = CHR ''{'' then (if depth \<ge> 3 then None else braceBody (Suc depth) cs)
      else braceBody depth cs)"

definition braceGroup :: "string \<Rightarrow> (string \<times> string) option" where
  "braceGroup s =
     (case s of
        [] \<Rightarrow> None
      | c # cs \<Rightarrow>
          if c = CHR ''{''
          then (case braceBody 1 cs of None \<Rightarrow> None | Some rest \<Rightarrow> Some (matched s rest, rest))
          else None)"

text \<open>\<^verbatim>\<open>\s*\<close> followed by a literal.\<close>

definition expect :: "string \<Rightarrow> string \<Rightarrow> string option" where
  "expect lit s = stripPrefix lit (skipSpaces s)"

text \<open>Pattern 1: \<^verbatim>\<open>/TOOL_CALL:\s*(\{...\})/\<close>.\<close>

definition matchLabelled :: "string \<Rightarrow> regex_match option" where
  "matchLabelled s =
     do {
       r \<leftarrow> stripPrefix ''TOOL_CALL:'' s;
       (g, rest) \<leftarrow> braceGroup (skipSpaces r);
       Some \<lparr>whole = matched s rest, group1 = g, group2 = []\<rparr>
     }"

text \<open>Pattern 2: \<^verbatim>\<open>/```json\s*TOOL_CALL:\s*(\{...\})\s*```/\<close>.\<close>

definition matchFenced :: "string \<Rightarrow> regex_match option" where
  "matchFenced s =
     do {
       r \<leftarrow> stripPrefix ''```json'' s;
       r2 \<leftarrow> expect ''TOOL_CALL:'' r;
       (g, rest) \<leftarrow> braceGroup (skipSpaces r2);
       rest2 \<leftarrow> expect ''```'' rest;
       Some \<lparr>whole = matched s rest2, group1 = g, group2 = []\<rparr>
     }"

text \<open>
  Pattern 3:
  \<^verbatim>\<open>/\{\s*"tool_name"\s*:\s*"([^"]+)"\s*,\s*"parameters"\s*:\s*(\{[^}]*\})\s*\}/\<close>.
\<close>

definition matchBare :: "string \<Rightarrow> regex_match option" where
  \<open>matchBare s =
     do {
       r0 \<leftarrow> stripPrefix ''{'' s;
       r1 \<leftarrow> expect ''"tool_name"'' r0;
       r2 \<leftarrow> expect '':'' r1;
       r3 \<leftarrow> expect ''"'' r2;
       r4 \<leftarrow> (if takeWhile (\<lambda>c. c \<noteq> CHR 0x22) r3 = [] then None
              else stripPrefix ''"'' (dropWhile (\<lambda>c. c \<noteq> CHR 0x22) r3));
       r5 \<leftarrow> expect '','' r4;
       r6 \<leftarrow> expect ''"parameters"'' r5;
       r7 \<leftarrow> expect '':'' r6;
       r8 \<leftarrow> expect ''{'' r7;
       r9 \<leftarrow> stripPrefix ''}'' (dropWhile (\<lambda>c. c \<noteq> CHR ''}'') r8);
       rest \<leftarrow> expect ''}'' r9;
       Some \<lparr>whole = matched s rest,
             group1 = takeWhile (\<lambda>c. c \<noteq> CHR 0x22) r3,
             group2 = ''{'' @ takeWhile (\<lambda>c. c \<noteq> CHR ''}'') r8 @ ''}''\<rparr>
     }\<close>

text \<open>
  \<^verbatim>\<open>String.prototype.replace\<close> with a pattern without the \<^verbatim>\<open>g\<close> flag and the empty
  replacement: the first match is removed. The matcher returns what follows its match.
  The three patterns of the fallback are \<^verbatim>\<open>/TOOL_CALL:\s*/\<close>, \<^verbatim>\<open>/```json\s*/\<close> and
  \<^verbatim>\<open>/```\s*$/\<close>.
\<close>

fun removeFirst :: "(string \<Rightarrow> string option) \<Rightarrow> string \<Rightarrow> string" where
  "removeFirst m [] = (case m [] of Some r \<Rightarrow> r | None \<Rightarrow> [])"
| "removeFirst m (c # cs) = (case m (c # cs) of Some r \<Rightarrow> r | None \<Rightarrow> c # removeFirst m cs)"

definition labelThenSpaces :: "string \<Rightarrow> string option" where
  "labelThenSpaces s = map_option skipSpaces (stripPrefix ''TOOL_CALL:'' s)"

definition fenceOpenThenSpaces :: "string \<Rightarrow> string option" where
  "fenceOpenThenSpaces s = map_option skipSpaces (stripPrefix ''```json'' s)"

definition fenceAtEnd :: "string \<Rightarrow> string option" where
  "fenceAtEnd s =
     (case stripPrefix ''```'' s of
        None \<Rightarrow> None
      | Some r \<Rightarrow> if skipSpaces r = [] then Some [] else None)"

text \<open>
  \<^verbatim>\<open>JSON.parse\<close> is the engine's: the parameter \<open>parse\<close>, with \<open>None\<close> for a thrown
  \<^verbatim>\<open>SyntaxError\<close>. Truthiness and the property reads
  \<^verbatim>\<open>toolCall.tool_name\<close>, \<^verbatim>\<open>toolCall.parameters\<close> on a decoded value (reading a property
  of \<^verbatim>\<open>null\<close> throws, which the callers below test first; no other value has these
  properties but an object).
\<close>

fun truthy :: "json option \<Rightarrow> bool" where
  "truthy None = False"
| "truthy (Some JNull) = False"
| "truthy (Some (JBool b)) = b"
| "truthy (Some (JNum n)) = (n \<noteq> 0)"
| "truthy (Some (JStr s)) = (s \<noteq> [])"
| "truthy (Some (JArr xs)) = True"
| "truthy (Some (JObj kvs)) = True"

fun getProp :: "json \<Rightarrow> string \<Rightarrow> json option" where
  "getProp (JObj kvs) k = map_of kvs k"
| "getProp v k = None"

text \<open>The names of \<^verbatim>\<open>AVAILABLE_TOOLS\<close> (server/tools/toolDefinitions.cjs), in its order.\<close>

definition AVAILABLE_TOOLS :: "string list" where
  "AVAILABLE_TOOLS =
     [''search_papers'', ''download_paper'', ''read_pdf_content'', ''view_file'', ''edit_file'',
      ''search_in_file'', ''list_resources'', ''add_resource'', ''insert_resource'']"

record tool_call =
  tool_name :: string
  parameters :: json

text \<open>
  \<^verbatim>\<open>toolCall.tool_name && toolCall.parameters\<close>, then
  \<^verbatim>\<open>AVAILABLE_TOOLS.some(tool => tool.name === toolCall.tool_name)\<close>; the strict equality
  holds for a string only. \<open>None\<close>: nothing is returned for this pattern and the loop goes
  on to the next one.
\<close>

definition accept :: "json option \<Rightarrow> json option \<Rightarrow> tool_call option" where
  "accept name params =
     (if truthy name \<and> truthy params
      then (case (name, params) of
              (Some (JStr n), Some p) \<Rightarrow>
                if n \<in> set AVAILABLE_TOOLS then Some \<lparr>tool_name = n, parameters = p\<rparr> else None
            | _ \<Rightarrow> None)
      else None)"

text \<open>The fallback of the \<^verbatim>\<open>catch\<close> block, on \<^verbatim>\<open>match[0]\<close>.\<close>

definition fallbackDecode :: "(string \<Rightarrow> json option) \<Rightarrow> regex_match \<Rightarrow> tool_call option" where
  "fallbackDecode parse m =
     (case parse (trim (removeFirst fenceAtEnd (removeFirst fenceOpenThenSpaces
                    (removeFirst labelThenSpaces (whole m))))) of
        None \<Rightarrow> None
      | Some JNull \<Rightarrow> None
      | Some v \<Rightarrow> accept (getProp v ''tool_name'') (getProp v ''parameters''))"

text \<open>Patterns 1 and 2: \<^verbatim>\<open>toolCall = JSON.parse(match[1].trim())\<close>.\<close>

definition decodeLabelled :: "(string \<Rightarrow> json option) \<Rightarrow> regex_match \<Rightarrow> tool_call option" where
  "decodeLabelled parse m =
     (case parse (trim (group1 m)) of
        None \<Rightarrow> fallbackDecode parse m
      | Some v \<Rightarrow>
          if truthy (Some v) then accept (getProp v ''tool_name'') (getProp v ''parameters'') else None)"

text \<open>
  Pattern 3: \<^verbatim>\<open>toolCall = { tool_name: match[1], parameters: JSON.parse(match[2]) }\<close>.
\<close>

definition decodeBare :: "(string \<Rightarrow> json option) \<Rightarrow> regex_match \<Rightarrow> tool_call option" where
  "decodeBare parse m =
     (case parse (group2 m) of
        None \<Rightarrow> fallbackDecode parse m
      | Some p \<Rightarrow> accept (Some (JStr (group1 m))) (Some p))"

text \<open>
  \<^verbatim>\<open>parseToolCalls(response)\<close> on a string: the patterns are tried in the order 1, 2, 3,
  each at its own leftmost match, and the first pattern whose match decodes to a known
  tool returns.
\<close>

definition parseToolCalls :: "(string \<Rightarrow> json option) \<Rightarrow> string \<Rightarrow> tool_call list" where
  "parseToolCalls parse response =
     (if response = [] then []
      else
        (case Option.bind (regexExec matchLabelled response) (decodeLabelled parse) of
           Some call \<Rightarrow> [call]
         | None \<Rightarrow>
             (case Option.bind (regexExec matchFenced response) (decodeLabelled parse) of
                Some call \<Rightarrow> [call]
              | None \<Rightarrow>
                  (case Option.bind (regexExec matchBare response) (decodeBare parse) of
                     Some call \<Rightarrow> [call]
                   | None \<Rightarrow> []))))"

definition exampleParse :: "string \<Rightarrow> json option" where
  \<open>exampleParse s =
     (if s = ''{}'' then Some (JObj [])
      else if s = ''{"tool_name": "list_resources", "parameters": {"resource_type": "notes"}}''
        then Some (JObj [(''tool_name'', JStr ''list_resources''),
                         (''parameters'', JObj [(''resource_type'', JStr ''notes'')])])
      else None)\<close>

definition twoMarkers :: string where
  \<open>twoMarkers = ''{"tool_name": "view_file", "parameters": {}} TOOL_CALL: {"tool_name": "list_resources", "parameters": {"resource_type": "notes"}}''\<close>

lemma parseToolCalls_at_most_one: "length (parseToolCalls parse response) \<le> 1"
  by (simp add: parseToolCalls_def split: option.splits)

lemmas evalParser = parseToolCalls_def matchLabelled_def matchFenced_def matchBare_def
  decodeLabelled_def decodeBare_def fallbackDecode_def accept_def AVAILABLE_TOOLS_def
  braceGroup_def matched_def expect_def exampleParse_def

text \<open>
  Claim C2 does not hold of the code. The reply \<open>twoMarkers\<close> holds two well-formed
  markers: the bare object for \<^verbatim>\<open>view_file\<close> at position 0 (pattern 3; on its own it is
  decoded, second conjunct) and the \<^verbatim>\<open>TOOL_CALL:\<close> block for \<^verbatim>\<open>list_resources\<close> at
  position 45 (pattern 1). \<^verbatim>\<open>parseToolCalls\<close> tries pattern 1 on the whole text before
  pattern 3 and returns the later marker's call, while
  \<^verbatim>\<open>extractContentBeforeToolCall\<close> finds the first marker at position 0.
  \<open>exampleParse\<close> is \<^verbatim>\<open>JSON.parse\<close> on the two object texts the run decodes.
\<close>

theorem parseToolCalls_returns_later_marker:
  "parseToolCalls exampleParse twoMarkers
     = [\<lparr>tool_name = ''list_resources'', parameters = JObj [(''resource_type'', JStr ''notes'')]\<rparr>]
   \<and> parseToolCalls exampleParse (take 44 twoMarkers)
     = [\<lparr>tool_name = ''view_file'', parameters = JObj []\<rparr>]
   \<and> firstToolCallIndex twoMarkers = 0
   \<and> regexIndex atToolCallBrace twoMarkers = Some 45"
  by (simp add: twoMarkers_def evalParser evalMarkers firstToolCallIndex_def updateFirst_def)

section \<open>The streaming route: server/routes/agent.cjs and server/aiApi.cjs\<close>











subsection \<open>The request and the prompt\<close>





text \<open>
  \<^verbatim>\<open>input.startsWith(p)\<close> on the code units of the text. The two prefixes of a tool
  follow-up are the Chinese literals of the source, given by their code units. Both begin
  with a code unit above 255, so no text of this model starts with either, and the
  content section of every prompt built here interpolates the content.
\<close>

definition startsWith :: "string \<Rightarrow> nat list \<Rightarrow> bool" where
  "startsWith s p = (take (length p) (map of_char s) = p)"

definition toolQuotePrefix :: "nat list" where
  "toolQuotePrefix = [0x5DE5, 0x5177, 0x20, 0x22]"

definition toolResultPrefix :: "nat list" where
  "toolResultPrefix = [0x5DE5, 0x5177, 0x6267, 0x884C, 0x7ED3, 0x679C]"








subsection \<open>The stream of the model\<close>







subsection \<open>The route\<close>


























lemma startsWith_above_255:
  assumes "p \<noteq> []" "255 < hd p"
  shows "\<not> startsWith s p"
proof (cases s)
  case Nil
  then show ?thesis using assms by (simp add: startsWith_def)
next
  case (Cons c cs)
  obtain q qs where p: "p = q # qs" using assms(1) by (cases p) auto
  have b: "(of_char c :: nat) < 256" by (rule nat_of_char_less_256)
  show ?thesis
  proof
    assume "startsWith s p"
    then have "hd p = of_char c" using Cons p by (auto simp: startsWith_def)
    then have "255 < (of_char c :: nat)" using assms(2) by simp
    then show False using b by linarith
  qed
qed

lemma never_followUp [simp]:
  "\<not> startsWith s toolQuotePrefix" "\<not> startsWith s toolResultPrefix"
  by (rule startsWith_above_255; simp add: toolQuotePrefix_def toolResultPrefix_def)+






































section \<open>The edit tool: server/tools/toolExecutor.cjs\<close>

text \<open>
  \<^verbatim>\<open>{ success, data?, error? }\<close>, as the executor returns it and as the client reads it
  from the JSON body of the response.
\<close>

record tool_result =
  success :: bool
  data :: "json option"
  error :: "string option"

text \<open>
  The parameters of \<^verbatim>\<open>edit_file\<close>, each absent (\<open>None\<close>) or of the type the tool
  catalogue declares for it: \<^verbatim>\<open>operation\<close>, \<^verbatim>\<open>content\<close> and \<^verbatim>\<open>target_text\<close> strings,
  \<^verbatim>\<open>position\<close> a number. \<open>editor_content\<close> is the editor text the request carries; an
  absent field and the empty string are both falsy.
\<close>

record edit_params =
  operation :: "string option"
  new_text :: "string option"
  target_text :: "string option"
  position :: "int option"

definition msgEditorEmpty :: string where
  "msgEditorEmpty = ''editor content is empty''"

definition msgTargetNotFound :: string where
  "msgTargetNotFound = ''target text to replace not found''"

definition msgBadPosition :: string where
  "msgBadPosition = ''invalid insert position''"

definition msgUnsupportedOperation :: string where
  "msgUnsupportedOperation = ''unsupported operation type: ''"

definition msgEdited :: "string \<Rightarrow> string" where
  "msgEdited op =
     ''file content successfully '' @
     (if op = ''append'' then ''appended'' else if op = ''replace'' then ''replaced'' else ''inserted'')"

text \<open>String conversion of a string that may be \<^verbatim>\<open>undefined\<close>, as \<^verbatim>\<open>+\<close> and template
  literals do it.\<close>

definition strOf :: "string option \<Rightarrow> string" where
  "strOf v = (case v of None \<Rightarrow> ''undefined'' | Some s \<Rightarrow> s)"

text \<open>
  \<^verbatim>\<open>text.includes(pat)\<close> and \<^verbatim>\<open>text.replace(pat, replacement)\<close> for a string pattern:
  the first occurrence is replaced, and in the replacement \<^verbatim>\<open>$$\<close> stands for a dollar
  sign, \<^verbatim>\<open>$&\<close> for the matched text, \<^verbatim>\<open>$`\<close> for the text before the match and
  \<^verbatim>\<open>$'\<close> for the text after it.
\<close>

fun findSub :: "string \<Rightarrow> string \<Rightarrow> (string \<times> string) option" where
  "findSub pat [] = (if pat = [] then Some ([], []) else None)"
| "findSub pat (c # cs) =
     (if take (length pat) (c # cs) = pat then Some ([], drop (length pat) (c # cs))
      else map_option (\<lambda>(pre, post). (c # pre, post)) (findSub pat cs))"

fun expandReplacement :: "string \<Rightarrow> string \<Rightarrow> string \<Rightarrow> string \<Rightarrow> string" where
  "expandReplacement m pre post [] = []"
| "expandReplacement m pre post [c] = [c]"
| "expandReplacement m pre post (c # d # rest) =
     (if c = CHR ''$'' \<and> d = CHR ''$'' then CHR ''$'' # expandReplacement m pre post rest
      else if c = CHR ''$'' \<and> d = CHR ''&'' then m @ expandReplacement m pre post rest
      else if c = CHR ''$'' \<and> d = CHR 0x60 then pre @ expandReplacement m pre post rest
      else if c = CHR ''$'' \<and> d = CHR 0x27 then post @ expandReplacement m pre post rest
      else c # expandReplacement m pre post (d # rest))"

definition replaceFirst :: "string \<Rightarrow> string \<Rightarrow> string \<Rightarrow> string" where
  "replaceFirst text pat replacement =
     (case findSub pat text of
        None \<Rightarrow> text
      | Some (pre, post) \<Rightarrow> pre @ expandReplacement pat pre post replacement @ post)"

text \<open>\<^verbatim>\<open>text.split('\n').length\<close>.\<close>

definition lineCount :: "string \<Rightarrow> int" where
  "lineCount text = 1 + int (length (filter (\<lambda>c. c = CHR 0x0A) text))"

definition failure :: "string \<Rightarrow> tool_result" where
  "failure msg = \<lparr>success = False, data = None, error = Some msg\<rparr>"

text \<open>
  \<^verbatim>\<open>executeEditFile(parameters, editor_content)\<close>. \<open>Inl\<close> is an early
  \<^verbatim>\<open>return { success: false, error }\<close> of the \<^verbatim>\<open>switch\<close>, \<open>Inr\<close> the new content.
\<close>

definition editedContent :: "edit_params \<Rightarrow> string \<Rightarrow> string + string" where
  "editedContent p editor_content =
     (if operation p = Some ''append''
        then Inr (editor_content @ [CHR 0x0A, CHR 0x0A] @ strOf (new_text p))
      else if operation p = Some ''replace''
        then (case target_text p of
                None \<Rightarrow> Inl msgTargetNotFound
              | Some t \<Rightarrow>
                  if t = [] \<or> findSub t editor_content = None then Inl msgTargetNotFound
                  else Inr (replaceFirst editor_content t (strOf (new_text p))))
      else if operation p = Some ''insert_at''
        then (case position p of
                None \<Rightarrow> Inl msgBadPosition
              | Some i \<Rightarrow>
                  if i < 0 \<or> i > int (length editor_content) then Inl msgBadPosition
                  else Inr (take (nat i) editor_content @ strOf (new_text p)
                            @ drop (nat i) editor_content))
      else Inl (msgUnsupportedOperation @ strOf (operation p)))"

definition executeEditFile :: "edit_params \<Rightarrow> string \<Rightarrow> tool_result" where
  "executeEditFile p editor_content =
     (if editor_content = [] then failure msgEditorEmpty
      else
        (case editedContent p editor_content of
           Inl msg \<Rightarrow> failure msg
         | Inr newContent \<Rightarrow>
             \<lparr>success = True,
              data = Some (JObj
                [(''operation'', JStr (strOf (operation p))),
                 (''new_content'', JStr newContent),
                 (''message'', JStr (msgEdited (strOf (operation p)))),
                 (''stats'', JObj
                    [(''old_lines'', JNum (lineCount editor_content)),
                     (''new_lines'', JNum (lineCount newContent)),
                     (''lines_added'', JNum (lineCount newContent - lineCount editor_content))])]),
              error = None\<rparr>))"

section \<open>The orchestration loop: src/components/AgentChat.tsx\<close>

datatype role = User | Agent

text \<open>A message of the conversation; an absent optional field is \<open>None\<close>.\<close>

record message =
  m_role :: role
  m_content :: string
  m_reasoning :: "string option"
  m_tool_calls :: "tool_call list option"
  m_tool_results :: "tool_result list option"
  m_isStreaming :: "bool option"

text \<open>\<^verbatim>\<open>AgentResponse\<close>, what \<^verbatim>\<open>sendRequest\<close> and \<^verbatim>\<open>sendStreamRequest\<close> resolve to.\<close>

record agent_response =
  response :: string
  reasoning :: "string option"
  tool_calls :: "tool_call list option"

text \<open>
  The input text of a model request is the user's input or the follow-up text of a tool
  result, \<^verbatim>\<open>`tool "${name}" result:\n${JSON.stringify(formattedResult, null, 2)}...`\<close>; the
  follow-up is kept as the tool name and the \<^verbatim>\<open>formattedResult\<close> object it renders.
\<close>

datatype agent_input = UserInput string | ToolFollowUp string json

text \<open>
  How one request to the model ends, as \<^verbatim>\<open>sendAgentRequest\<close> sees it: the deltas of the
  \<^verbatim>\<open>chunk\<close> events delivered to its callback (streaming only), and the promise of
  \<^verbatim>\<open>agentService.sendRequest\<close> or \<^verbatim>\<open>sendStreamRequest\<close> resolved, rejected with a
  message, or never settled (a stream that ends without a \<^verbatim>\<open>complete\<close> or
  \<^verbatim>\<open>error\<close> event leaves the promise pending).
\<close>

datatype settlement = Resolved agent_response | Rejected string | Pending

record send_outcome =
  chunks :: "(string \<times> string) list"
  settled :: settlement

text \<open>
  How one tool execution ends within the race against the 30 second timer: the executor's
  promise resolved first, it rejected first (with an \<^verbatim>\<open>Error\<close> and its message, or with
  a value that is not an \<^verbatim>\<open>Error\<close>), or the timer fired first.
\<close>

datatype exec_outcome = Returned tool_result | Threw "string option" | TimedOut

text \<open>
  The collaborators of one turn. \<open>sendModel n\<close> is the \<open>n\<close>-th request to the model
  of the turn (0 the initial one, \<open>k\<close> the follow-up of the \<open>k\<close>-th tool call), given
  the editor content, the input and the messages; the upload of the content to the cache
  and the choice between \<^verbatim>\<open>contentId\<close> and \<^verbatim>\<open>content\<close> in the request are part of it.
  \<open>execTool n\<close> is \<^verbatim>\<open>agentService.executeToolCall\<close> for the \<open>n\<close>-th tool call.
  \<open>summarise\<close> is the tool-specific part of \<^verbatim>\<open>formattedResult\<close> for
  \<^verbatim>\<open>search_papers\<close>, \<^verbatim>\<open>read_pdf_content\<close> and \<^verbatim>\<open>list_resources\<close> (maps over the
  papers and resources, truncation of the text to 40000 characters): the fields it adds,
  or the message of the \<^verbatim>\<open>TypeError\<close> it throws on data of another shape.
  \<open>errorContent\<close> is the text the \<^verbatim>\<open>catch\<close> block builds from the message of the error.
\<close>

record env =
  sendModel :: "nat \<Rightarrow> json \<Rightarrow> agent_input \<Rightarrow> message list \<Rightarrow> send_outcome"
  execTool :: "nat \<Rightarrow> tool_call \<Rightarrow> json \<Rightarrow> exec_outcome"
  summarise :: "string \<Rightarrow> json \<Rightarrow> string + (string \<times> json) list"
  errorContent :: "string \<Rightarrow> string"

text \<open>What the turn does to the outside, in order.\<close>

datatype call_event =
    ModelCall nat json agent_input
  | ToolExec nat tool_call json exec_outcome tool_result

datatype turn_outcome = NotSent | Finished | Failed string | Stuck

definition MAX_TOOL_ITERATIONS :: nat where
  "MAX_TOOL_ITERATIONS = 10"

definition msgConfigureApiKey :: string where
  "msgConfigureApiKey = ''please configure the API Key first''"

definition msgToolFailed :: string where
  "msgToolFailed = ''tool execution failed''"

definition msgToolTimeout :: "string \<Rightarrow> string" where
  "msgToolTimeout name = ''tool '' @ name @ '' execution timed out (30 seconds)''"

text \<open>
  \<^verbatim>\<open>sendAgentRequest\<close>: the messages after the request, and what it returns or throws.
  With streaming, a streaming message is appended before the request and each chunk
  appends its deltas to it; on resolution the last message takes the final content, the
  reasoning and the tool calls. Without streaming the agent message is appended on
  resolution only.
\<close>

definition setLast :: "(message \<Rightarrow> message) \<Rightarrow> message list \<Rightarrow> message list" where
  "setLast f ms = (if ms = [] then ms else butlast ms @ [f (last ms)])"

definition streamingMessage :: message where
  "streamingMessage =
     \<lparr>m_role = Agent, m_content = [], m_reasoning = Some [], m_tool_calls = None,
      m_tool_results = None, m_isStreaming = Some True\<rparr>"

definition applyChunk :: "message \<Rightarrow> string \<times> string \<Rightarrow> message" where
  "applyChunk m d =
     m\<lparr>m_content := m_content m @ fst d,
       m_reasoning := Some ((case m_reasoning m of None \<Rightarrow> [] | Some r \<Rightarrow> r) @ snd d)\<rparr>"

definition sendAgentRequest ::
  "env \<Rightarrow> nat \<Rightarrow> json \<Rightarrow> agent_input \<Rightarrow> message list \<Rightarrow> bool \<Rightarrow> message list \<times> settlement" where
  "sendAgentRequest e n editorText inputText currentMessages useStreaming =
     (let out = sendModel e n editorText inputText currentMessages in
      if useStreaming then
        (let streamed = currentMessages @ [foldl applyChunk streamingMessage (chunks out)] in
         case settled out of
           Resolved r \<Rightarrow>
             (setLast (\<lambda>m. m\<lparr>m_content := response r, m_reasoning := reasoning r,
                               m_isStreaming := Some False, m_tool_calls := tool_calls r\<rparr>) streamed,
              Resolved r)
         | other \<Rightarrow> (streamed, other))
      else
        (case settled out of
           Resolved r \<Rightarrow>
             (currentMessages @
                [\<lparr>m_role = Agent, m_content = response r, m_reasoning = None,
                  m_tool_calls = tool_calls r, m_tool_results = None, m_isStreaming = None\<rparr>],
              Resolved r)
         | other \<Rightarrow> (currentMessages, other)))"

text \<open>
  The result the loop goes on with: the executor's, or the one the \<^verbatim>\<open>catch\<close> block
  makes of a rejection or a timeout.
\<close>

definition resultOf :: "tool_call \<Rightarrow> exec_outcome \<Rightarrow> tool_result" where
  "resultOf toolCall oc =
     (case oc of
        Returned r \<Rightarrow> r
      | Threw (Some msg) \<Rightarrow> \<lparr>success = False, data = None, error = Some msg\<rparr>
      | Threw None \<Rightarrow> \<lparr>success = False, data = None, error = Some msgToolFailed\<rparr>
      | TimedOut \<Rightarrow> \<lparr>success = False, data = None, error = Some (msgToolTimeout (tool_name toolCall))\<rparr>)"

text \<open>
  \<^verbatim>\<open>result.data?.content\<close>, and the update of the editor content the loop holds:
  \<^verbatim>\<open>if (result.success && toolCall.tool_name === 'edit_file' && result.data?.content)\<close>.
\<close>

definition dataProp :: "tool_result \<Rightarrow> string \<Rightarrow> json option" where
  "dataProp r k = (case data r of None \<Rightarrow> None | Some d \<Rightarrow> getProp d k)"

definition editedEditorContent :: "tool_call \<Rightarrow> tool_result \<Rightarrow> json option" where
  "editedEditorContent toolCall r =
     (if success r \<and> tool_name toolCall = ''edit_file'' \<and> truthy (dataProp r ''content'')
      then dataProp r ''content'' else None)"

text \<open>
  \<^verbatim>\<open>formattedResult\<close>. \<^verbatim>\<open>JSON.stringify\<close> leaves out the properties whose value is
  \<^verbatim>\<open>undefined\<close>, so the object holds the defined ones. \<open>Inl\<close> is a thrown error.
\<close>

definition defined :: "(string \<times> json option) list \<Rightarrow> (string \<times> json) list" where
  "defined kvs = concat (map (\<lambda>(k, v). case v of None \<Rightarrow> [] | Some x \<Rightarrow> [(k, x)]) kvs)"

definition formattedResult :: "env \<Rightarrow> tool_call \<Rightarrow> tool_result \<Rightarrow> string + json" where
  "formattedResult e toolCall r =
     (let base = defined
            [(''tool'', Some (JStr (tool_name toolCall))),
             (''success'', Some (JBool (success r))),
             (''error'', if success r then None else map_option JStr (error r))]
      in if success r \<and> truthy (data r) then
           (case data r of
              None \<Rightarrow> Inr (JObj base)
            | Some d \<Rightarrow>
                if tool_name toolCall = ''search_papers'' \<and> truthy (getProp d ''papers'')
                  then map_sum id (\<lambda>fs. JObj (base @ fs)) (summarise e ''search_papers'' d)
                else if tool_name toolCall = ''download_paper''
                  then Inr (JObj (base @ defined
                         [(''message'', getProp d ''message''), (''filename'', getProp d ''filename''),
                          (''resource_id'', getProp d ''resource_id'')]))
                else if tool_name toolCall = ''read_pdf_content''
                  then map_sum id (\<lambda>fs. JObj (base @ fs)) (summarise e ''read_pdf_content'' d)
                else if tool_name toolCall = ''list_resources''
                  then map_sum id (\<lambda>fs. JObj (base @ fs)) (summarise e ''list_resources'' d)
                else Inr (JObj (base @ [(''data'', d)])))
         else Inr (JObj base))"

text \<open>The variables of \<^verbatim>\<open>handleSend\<close> that the loop changes.\<close>

record loop_state =
  iterationCount :: nat
  currentEditorContent :: json
  updatedMessages :: "message list"
  toolHistory :: "(tool_call \<times> tool_result) list"
  editorUpdates :: "json list"

text \<open>
  \<^verbatim>\<open>agentResponse.tool_calls && agentResponse.tool_calls.length > 0\<close>, and then
  \<^verbatim>\<open>agentResponse.tool_calls[0]\<close>: the first call of a non-empty array.
\<close>

definition requestedCall :: "agent_response \<Rightarrow> tool_call option" where
  "requestedCall r = (case tool_calls r of Some (c # cs) \<Rightarrow> Some c | _ \<Rightarrow> None)"

definition setLastAgent :: "(message \<Rightarrow> message) \<Rightarrow> message list \<Rightarrow> message list" where
  "setLastAgent f ms = (if ms \<noteq> [] \<and> m_role (last ms) = Agent then setLast f ms else ms)"

text \<open>
  The body of the \<^verbatim>\<open>while\<close> loop for the requested call. \<open>Inl\<close>: the body was left
  by an exception (\<open>Failed\<close>, to the \<^verbatim>\<open>catch\<close> block of \<^verbatim>\<open>handleSend\<close>) or waits
  for ever on the model (\<open>Stuck\<close>); \<open>Inr\<close>: the follow-up request resolved, and the
  loop condition is tested again on its response. Both carry the state and the calls
  made. The message at \<^verbatim>\<open>lastIndex\<close> is updated when its role is \<^verbatim>\<open>agent\<close>;
  \<^verbatim>\<open>lastIndex\<close> is computed once per iteration. The id and the timestamp of the
  history entry are left out.
\<close>

definition loopBody ::
  "env \<Rightarrow> bool \<Rightarrow> tool_call \<Rightarrow> loop_state \<Rightarrow>
     (turn_outcome \<times> loop_state \<times> call_event list) + (agent_response \<times> loop_state \<times> call_event list)" where
  "loopBody e useStreaming toolCall st =
     (let n = Suc (iterationCount st);
          ms1 = setLastAgent (\<lambda>m. m\<lparr>m_tool_calls := Some [toolCall]\<rparr>) (updatedMessages st);
          oc = execTool e n toolCall (currentEditorContent st);
          result = resultOf toolCall oc;
          content' = (case editedEditorContent toolCall result of
                        None \<Rightarrow> currentEditorContent st | Some c \<Rightarrow> c);
          updates' = (case editedEditorContent toolCall result of
                        None \<Rightarrow> editorUpdates st | Some c \<Rightarrow> editorUpdates st @ [c]);
          ms2 = setLastAgent (\<lambda>m. m\<lparr>m_tool_results := Some [result]\<rparr>) ms1;
          st1 = \<lparr>iterationCount = n, currentEditorContent = content', updatedMessages = ms2,
                 toolHistory = toolHistory st @ [(toolCall, result)], editorUpdates = updates'\<rparr>;
          ev = ToolExec n toolCall (currentEditorContent st) oc result
      in case formattedResult e toolCall result of
           Inl msg \<Rightarrow> Inl (Failed msg, st1, [ev])
         | Inr formatted \<Rightarrow>
             (let followUpInput = ToolFollowUp (tool_name toolCall) formatted;
                  sent = sendAgentRequest e n content' followUpInput ms2 useStreaming;
                  st2 = st1\<lparr>updatedMessages := fst sent\<rparr>;
                  evs = [ev, ModelCall n content' followUpInput]
              in case snd sent of
                   Resolved r \<Rightarrow> Inr (r, st2, evs)
                 | Rejected msg \<Rightarrow> Inl (Failed msg, st2, evs)
                 | Pending \<Rightarrow> Inl (Stuck, st2, evs)))"

lemma loopBody_iterationCount:
  "loopBody e useStreaming toolCall st = Inr (r, st2, evs) \<Longrightarrow> iterationCount st2 = Suc (iterationCount st)"
  by (auto simp: loopBody_def Let_def split: sum.splits settlement.splits)

text \<open>
  The \<^verbatim>\<open>while\<close> loop: how it ends, the state then, and the calls it made.
  \<open>Finished\<close>: the loop condition became false.
\<close>

function toolLoop ::
  "env \<Rightarrow> bool \<Rightarrow> agent_response \<Rightarrow> loop_state \<Rightarrow> turn_outcome \<times> loop_state \<times> call_event list" where
  "toolLoop e useStreaming agentResponse st =
     (case requestedCall agentResponse of
        None \<Rightarrow> (Finished, st, [])
      | Some toolCall \<Rightarrow>
          if iterationCount st < MAX_TOOL_ITERATIONS then
            (case loopBody e useStreaming toolCall st of
               Inl stopped \<Rightarrow> stopped
             | Inr (r, st2, evs) \<Rightarrow>
                 (case toolLoop e useStreaming r st2 of
                    (outcome, st3, rest) \<Rightarrow> (outcome, st3, evs @ rest)))
          else (Finished, st, []))"
  by pat_completeness auto
termination
  by (relation "measure (\<lambda>(e, useStreaming, agentResponse, st). MAX_TOOL_ITERATIONS - iterationCount st)")
     (auto dest: loopBody_iterationCount)

declare toolLoop.simps [simp del]

text \<open>
  \<^verbatim>\<open>handleSend\<close>. The component's state enters as arguments: the input box, the API key,
  the editor content, the messages, the writing mode (\<open>True\<close> for \<^verbatim>\<open>write\<close>) and
  whether the model streams. The result is the outcome, the messages and the calls of
  \<^verbatim>\<open>onUpdateContent\<close> in order, the editor content the loop held at its end, the tool
  history entries added, and the calls made to the model and the tools.
\<close>

definition userMessage :: "string \<Rightarrow> message" where
  "userMessage input =
     \<lparr>m_role = User, m_content = input, m_reasoning = None, m_tool_calls = None,
      m_tool_results = None, m_isStreaming = None\<rparr>"

definition agentMessage :: "string \<Rightarrow> message" where
  "agentMessage text =
     \<lparr>m_role = Agent, m_content = text, m_reasoning = None, m_tool_calls = None,
      m_tool_results = None, m_isStreaming = None\<rparr>"

text \<open>
  The end of the \<^verbatim>\<open>try\<close> block: in write mode the content of the last message, when it
  is an agent message with a non-empty content, is appended to the editor content
  (\<^verbatim>\<open>currentEditorContent + '\n' + lastMessage.content\<close>, kept as the pair).
\<close>

datatype editor_call = SetContent json | AppendReply json string

definition writeModeUpdate :: "bool \<Rightarrow> loop_state \<Rightarrow> editor_call list" where
  "writeModeUpdate writeMode st =
     (if writeMode \<and> updatedMessages st \<noteq> [] \<and> m_role (last (updatedMessages st)) = Agent
         \<and> m_content (last (updatedMessages st)) \<noteq> []
      then [AppendReply (currentEditorContent st) (m_content (last (updatedMessages st)))]
      else [])"

record turn =
  turnOutcome :: turn_outcome
  turnMessages :: "message list"
  turnEditorCalls :: "editor_call list"
  turnHeldContent :: json
  turnHistory :: "(tool_call \<times> tool_result) list"
  turnCalls :: "call_event list"

definition handleSend ::
  "env \<Rightarrow> string \<Rightarrow> string \<Rightarrow> string \<Rightarrow> message list \<Rightarrow> bool \<Rightarrow> bool \<Rightarrow> turn" where
  "handleSend e input currentApiKey editorContent messages writeMode useStreaming =
     (if trim input = [] then
        \<lparr>turnOutcome = NotSent, turnMessages = messages, turnEditorCalls = [],
         turnHeldContent = JStr editorContent, turnHistory = [], turnCalls = []\<rparr>
      else if trim currentApiKey = [] then
        \<lparr>turnOutcome = NotSent, turnMessages = messages @ [agentMessage msgConfigureApiKey],
         turnEditorCalls = [], turnHeldContent = JStr editorContent, turnHistory = [],
         turnCalls = []\<rparr>
      else
        (let updated = messages @ [userMessage input];
             first = ModelCall 0 (JStr editorContent) (UserInput input);
             sent = sendAgentRequest e 0 (JStr editorContent) (UserInput input) updated useStreaming;
             st0 = \<lparr>iterationCount = 0, currentEditorContent = JStr editorContent,
                    updatedMessages = fst sent, toolHistory = [], editorUpdates = []\<rparr>
         in case snd sent of
              Resolved r \<Rightarrow>
                (case toolLoop e useStreaming r st0 of
                   (oc, st, evs) \<Rightarrow>
                     \<lparr>turnOutcome = oc,
                      turnMessages =
                        (case oc of
                           Failed msg \<Rightarrow> updatedMessages st @ [agentMessage (errorContent e msg)]
                         | _ \<Rightarrow> updatedMessages st),
                      turnEditorCalls =
                        map SetContent (editorUpdates st) @
                        (case oc of Finished \<Rightarrow> writeModeUpdate writeMode st | _ \<Rightarrow> []),
                      turnHeldContent = currentEditorContent st,
                      turnHistory = toolHistory st,
                      turnCalls = first # evs\<rparr>)
            | Rejected msg \<Rightarrow>
                \<lparr>turnOutcome = Failed msg,
                 turnMessages = fst sent @ [agentMessage (errorContent e msg)],
                 turnEditorCalls = [], turnHeldContent = JStr editorContent, turnHistory = [],
                 turnCalls = [first]\<rparr>
            | Pending \<Rightarrow>
                \<lparr>turnOutcome = Stuck, turnMessages = fst sent, turnEditorCalls = [],
                 turnHeldContent = JStr editorContent, turnHistory = [], turnCalls = [first]\<rparr>))"

subsection \<open>Counting the calls of a turn\<close>

fun isToolExec :: "call_event \<Rightarrow> bool" where
  "isToolExec (ToolExec n tc c oc r) = True"
| "isToolExec (ModelCall n c i) = False"

definition toolExecs :: "call_event list \<Rightarrow> nat" where
  "toolExecs evs = length (filter isToolExec evs)"

definition modelCalls :: "call_event list \<Rightarrow> nat" where
  "modelCalls evs = length (filter (\<lambda>ev. \<not> isToolExec ev) evs)"

text \<open>
  Collaborators that never make the turn fail: every request to the model resolves, every
  request resolves with a tool call, and the formatting of a result never throws.
\<close>

definition modelAlwaysReplies :: "env \<Rightarrow> bool" where
  "modelAlwaysReplies e = (\<forall>n c i ms. \<exists>r. settled (sendModel e n c i ms) = Resolved r)"

definition modelAlwaysRequestsTool :: "env \<Rightarrow> bool" where
  "modelAlwaysRequestsTool e =
     (\<forall>n c i ms. \<exists>r. settled (sendModel e n c i ms) = Resolved r \<and> requestedCall r \<noteq> None)"

definition formattingTotal :: "env \<Rightarrow> bool" where
  "formattingTotal e = (\<forall>name d. \<exists>fs. summarise e name d = Inr fs)"

lemma toolExecs_append: "toolExecs (xs @ ys) = toolExecs xs + toolExecs ys"
  by (simp add: toolExecs_def)

lemma modelCalls_append: "modelCalls (xs @ ys) = modelCalls xs + modelCalls ys"
  by (simp add: modelCalls_def)

lemma sendAgentRequest_settled:
  "snd (sendAgentRequest e n c i ms us) = settled (sendModel e n c i ms)"
  by (simp add: sendAgentRequest_def Let_def split: settlement.splits)

lemma loopBody_Inr:
  assumes "loopBody e us tc st = Inr (r, st2, evs)"
  shows "toolExecs evs = 1 \<and> modelCalls evs = 1 \<and> iterationCount st2 = Suc (iterationCount st)
    \<and> (\<exists>c i ms. settled (sendModel e (Suc (iterationCount st)) c i ms) = Resolved r)"
proof -
  obtain formatted where f: "formattedResult e tc (resultOf tc (execTool e (Suc (iterationCount st)) tc (currentEditorContent st))) = Inr formatted"
    using assms by (auto simp: loopBody_def Let_def split: sum.splits)
  show ?thesis
    using assms f sendAgentRequest_settled
    by (auto simp: loopBody_def Let_def toolExecs_def modelCalls_def split: settlement.splits)
qed

lemma loopBody_Inl:
  assumes "loopBody e us tc st = Inl (oc, st2, evs)"
  shows "toolExecs evs = 1 \<and> modelCalls evs \<le> 1 \<and> iterationCount st2 = Suc (iterationCount st)
    \<and> oc \<noteq> Finished"
  using assms
  by (auto simp: loopBody_def Let_def toolExecs_def modelCalls_def split: sum.splits settlement.splits)

lemma toolLoop_counts:
  "toolLoop e us r st = (oc, st', evs) \<Longrightarrow> iterationCount st \<le> MAX_TOOL_ITERATIONS \<Longrightarrow>
   toolExecs evs + iterationCount st = iterationCount st' \<and> iterationCount st' \<le> MAX_TOOL_ITERATIONS
   \<and> modelCalls evs \<le> toolExecs evs"
proof (induction e us r st arbitrary: oc st' evs rule: toolLoop.induct)
  case (1 e us r st)
  show ?case
  proof (cases "requestedCall r")
    case None
    then show ?thesis using "1.prems" by (simp add: toolLoop.simps toolExecs_def modelCalls_def)
  next
    case (Some tc)
    show ?thesis
    proof (cases "iterationCount st < MAX_TOOL_ITERATIONS")
      case False
      then show ?thesis using "1.prems" Some by (simp add: toolLoop.simps toolExecs_def modelCalls_def)
    next
      case True
      show ?thesis
      proof (cases "loopBody e us tc st")
        case (Inl stopped)
        obtain oc0 st0 evs0 where s: "stopped = (oc0, st0, evs0)" by (cases stopped)
        have "toolLoop e us r st = (oc0, st0, evs0)"
          using Some True Inl s by (simp add: toolLoop.simps)
        then show ?thesis using "1.prems" loopBody_Inl[of e us tc st oc0 st0 evs0] Inl s True by auto
      next
        case (Inr cont)
        obtain r2 st2 evs2 where c: "cont = (r2, st2, evs2)" by (cases cont)
        obtain oc3 st3 rest where t: "toolLoop e us r2 st2 = (oc3, st3, rest)"
          by (cases "toolLoop e us r2 st2")
        have b: "toolExecs evs2 = 1" "modelCalls evs2 = 1" "iterationCount st2 = Suc (iterationCount st)"
          using loopBody_Inr[of e us tc st r2 st2 evs2] Inr c by auto
        have le: "iterationCount st2 \<le> MAX_TOOL_ITERATIONS" using b True by simp
        have ih: "toolExecs rest + iterationCount st2 = iterationCount st3
            \<and> iterationCount st3 \<le> MAX_TOOL_ITERATIONS \<and> modelCalls rest \<le> toolExecs rest"
          using "1.IH"[OF Some True Inr c[symmetric] refl t le] .
        have "toolLoop e us r st = (oc3, st3, evs2 @ rest)"
          using Some True Inr c t by (simp add: toolLoop.simps)
        then show ?thesis using "1.prems" ih b by (auto simp: toolExecs_append modelCalls_append)
      qed
    qed
  qed
qed

lemma loopBody_continues:
  assumes "modelAlwaysReplies e" "formattingTotal e"
  shows "\<exists>r st2 evs. loopBody e us tc st = Inr (r, st2, evs)"
proof -
  define result where "result = resultOf tc (execTool e (Suc (iterationCount st)) tc (currentEditorContent st))"
  have "\<exists>formatted. formattedResult e tc result = Inr formatted"
  proof -
    have "\<And>name d. \<exists>fs. summarise e name d = Inr fs" using assms(2) by (simp add: formattingTotal_def)
    then have s: "\<And>name d. \<exists>j. map_sum id (\<lambda>fs. JObj (defined
            [(''tool'', Some (JStr (tool_name tc))), (''success'', Some (JBool (success result))),
             (''error'', if success result then None else map_option JStr (error result))] @ fs))
            (summarise e name d) = Inr j"
      by (metis map_sum.simps(2))
    show ?thesis
      unfolding formattedResult_def Let_def using s
      by (auto split: option.splits)
  qed
  then obtain formatted where f: "formattedResult e tc result = Inr formatted" by blast
  have "\<And>n c i ms. \<exists>r. snd (sendAgentRequest e n c i ms us) = Resolved r"
    using assms(1) by (simp add: sendAgentRequest_settled modelAlwaysReplies_def)
  then show ?thesis
    using f unfolding loopBody_def Let_def result_def[symmetric]
    by (simp split: settlement.splits) (metis settlement.distinct(1,3))
qed

lemma toolLoop_finishes:
  "modelAlwaysReplies e \<Longrightarrow> formattingTotal e \<Longrightarrow> toolLoop e us r st = (oc, st', evs) \<Longrightarrow>
   oc = Finished \<and> modelCalls evs = toolExecs evs"
proof (induction e us r st arbitrary: oc st' evs rule: toolLoop.induct)
  case (1 e us r st)
  note a = "1.prems"(1,2)
  show ?case
  proof (cases "requestedCall r")
    case None
    then show ?thesis using "1.prems"(3) by (simp add: toolLoop.simps toolExecs_def modelCalls_def)
  next
    case (Some tc)
    show ?thesis
    proof (cases "iterationCount st < MAX_TOOL_ITERATIONS")
      case False
      then show ?thesis using "1.prems"(3) Some by (simp add: toolLoop.simps toolExecs_def modelCalls_def)
    next
      case True
      obtain r2 st2 evs2 where b: "loopBody e us tc st = Inr (r2, st2, evs2)"
        using loopBody_continues[OF a] by blast
      obtain oc3 st3 rest where t: "toolLoop e us r2 st2 = (oc3, st3, rest)"
        by (cases "toolLoop e us r2 st2")
      have ih: "oc3 = Finished \<and> modelCalls rest = toolExecs rest"
        using "1.IH"[OF Some True b refl refl a t] .
      have c: "toolExecs evs2 = 1" "modelCalls evs2 = 1"
        using loopBody_Inr[OF b] by auto
      have "toolLoop e us r st = (oc3, st3, evs2 @ rest)"
        using Some True b t by (simp add: toolLoop.simps)
      then show ?thesis using "1.prems"(3) ih c by (auto simp: toolExecs_append modelCalls_append)
    qed
  qed
qed

lemma toolLoop_reaches_limit:
  "modelAlwaysRequestsTool e \<Longrightarrow> formattingTotal e \<Longrightarrow> toolLoop e us r st = (oc, st', evs) \<Longrightarrow>
   requestedCall r \<noteq> None \<Longrightarrow> iterationCount st \<le> MAX_TOOL_ITERATIONS \<Longrightarrow>
   iterationCount st' = MAX_TOOL_ITERATIONS"
proof (induction e us r st arbitrary: oc st' evs rule: toolLoop.induct)
  case (1 e us r st)
  note a = "1.prems"(1,2)
  have ar: "modelAlwaysReplies e"
    using a(1) unfolding modelAlwaysReplies_def modelAlwaysRequestsTool_def by blast
  obtain tc where Some: "requestedCall r = Some tc" using "1.prems"(4) by auto
  show ?case
  proof (cases "iterationCount st < MAX_TOOL_ITERATIONS")
    case False
    then show ?thesis using "1.prems"(3,5) Some by (simp add: toolLoop.simps)
  next
    case True
    obtain r2 st2 evs2 where b: "loopBody e us tc st = Inr (r2, st2, evs2)"
      using loopBody_continues[OF ar a(2)] by blast
    obtain oc3 st3 rest where t: "toolLoop e us r2 st2 = (oc3, st3, rest)"
      by (cases "toolLoop e us r2 st2")
    have c: "iterationCount st2 = Suc (iterationCount st)"
      and s: "\<exists>c i ms. settled (sendModel e (Suc (iterationCount st)) c i ms) = Resolved r2"
      using loopBody_Inr[OF b] by auto
    have rq: "requestedCall r2 \<noteq> None"
      using s a(1) unfolding modelAlwaysRequestsTool_def by (metis settlement.inject)
    have le: "iterationCount st2 \<le> MAX_TOOL_ITERATIONS" using c True by simp
    have ih: "iterationCount st3 = MAX_TOOL_ITERATIONS"
      using "1.IH"[OF Some True b refl refl a t rq le] .
    have "toolLoop e us r st = (oc3, st3, evs2 @ rest)"
      using Some True b t by (simp add: toolLoop.simps)
    then show ?thesis using "1.prems"(3) ih by simp
  qed
qed

subsection \<open>The bound on the tool executions of a turn\<close>

lemma handleSend_sent:
  assumes "trim input \<noteq> []" "trim key \<noteq> []"
    and "sendAgentRequest e 0 (JStr ed) (UserInput input) (ms @ [userMessage input]) us = (ms0, Resolved r)"
    and "toolLoop e us r \<lparr>iterationCount = 0, currentEditorContent = JStr ed,
            updatedMessages = ms0, toolHistory = [], editorUpdates = []\<rparr> = (oc, st, evs)"
  shows "turnOutcome (handleSend e input key ed ms wm us) = oc"
    and "turnCalls (handleSend e input key ed ms wm us) = ModelCall 0 (JStr ed) (UserInput input) # evs"
    and "turnHeldContent (handleSend e input key ed ms wm us) = currentEditorContent st"
    and "turnEditorCalls (handleSend e input key ed ms wm us)
          = map SetContent (editorUpdates st) @ (case oc of Finished \<Rightarrow> writeModeUpdate wm st | _ \<Rightarrow> [])"
  using assms by (simp_all add: handleSend_def Let_def)

lemma handleSend_not_resolved:
  assumes "\<forall>r. snd (sendAgentRequest e 0 (JStr ed) (UserInput input) (ms @ [userMessage input]) us) \<noteq> Resolved r"
  shows "toolExecs (turnCalls (handleSend e input key ed ms wm us)) = 0"
    and "turnHeldContent (handleSend e input key ed ms wm us) = JStr ed"
    and "turnEditorCalls (handleSend e input key ed ms wm us) = []"
    and "set (turnCalls (handleSend e input key ed ms wm us)) \<subseteq> {ModelCall 0 (JStr ed) (UserInput input)}"
  using assms by (auto simp: handleSend_def Let_def toolExecs_def split: settlement.splits)

text \<open>
  Claim C1, as amended. In every turn \<^verbatim>\<open>handleSend\<close> executes at most
  \<^verbatim>\<open>MAX_TOOL_ITERATIONS\<close> = 10 tool calls. When every reply of the model requests a
  tool and the formatting of the results does not throw, the turn executes exactly ten
  tool calls and makes eleven requests to the model, and it ends as a turn without a tool
  call ends (\<open>Finished\<close>): the loop condition \<^verbatim>\<open>iterationCount < MAX_TOOL_ITERATIONS\<close>
  becomes false, the eleventh requested call is not executed, and no failure is raised.
\<close>

theorem tool_executions_bounded:
  "toolExecs (turnCalls (handleSend e input key ed ms wm us)) \<le> MAX_TOOL_ITERATIONS
   \<and> (modelAlwaysRequestsTool e \<and> formattingTotal e \<and> trim input \<noteq> [] \<and> trim key \<noteq> [] \<longrightarrow>
        turnOutcome (handleSend e input key ed ms wm us) = Finished
        \<and> toolExecs (turnCalls (handleSend e input key ed ms wm us)) = MAX_TOOL_ITERATIONS
        \<and> modelCalls (turnCalls (handleSend e input key ed ms wm us)) = Suc MAX_TOOL_ITERATIONS)"
proof (intro conjI impI)
  let ?sent = "sendAgentRequest e 0 (JStr ed) (UserInput input) (ms @ [userMessage input]) us"
  show "toolExecs (turnCalls (handleSend e input key ed ms wm us)) \<le> MAX_TOOL_ITERATIONS"
  proof (cases "trim input \<noteq> [] \<and> trim key \<noteq> [] \<and> (\<exists>r. snd ?sent = Resolved r)")
    case False
    then show ?thesis
      by (auto simp: handleSend_def Let_def toolExecs_def split: settlement.splits)
  next
    case True
    then obtain r where r: "?sent = (fst ?sent, Resolved r)" by (metis prod.collapse)
    obtain oc st evs where t: "toolLoop e us r \<lparr>iterationCount = 0, currentEditorContent = JStr ed,
            updatedMessages = fst ?sent, toolHistory = [], editorUpdates = []\<rparr> = (oc, st, evs)"
      by (metis prod_cases3)
    have "toolExecs evs \<le> MAX_TOOL_ITERATIONS" using toolLoop_counts[OF t] by simp
    then show ?thesis
      using handleSend_sent(2)[where key=key and wm=wm, OF _ _ r t] True by (simp add: toolExecs_def)
  qed
next
  assume a: "modelAlwaysRequestsTool e \<and> formattingTotal e \<and> trim input \<noteq> [] \<and> trim key \<noteq> []"
  let ?sent = "sendAgentRequest e 0 (JStr ed) (UserInput input) (ms @ [userMessage input]) us"
  have ar: "modelAlwaysReplies e"
    using a unfolding modelAlwaysReplies_def modelAlwaysRequestsTool_def by blast
  obtain r where s: "settled (sendModel e 0 (JStr ed) (UserInput input) (ms @ [userMessage input])) = Resolved r"
    and rq: "requestedCall r \<noteq> None"
    using a unfolding modelAlwaysRequestsTool_def by blast
  have r: "?sent = (fst ?sent, Resolved r)"
    using s sendAgentRequest_settled[of e 0 "JStr ed" "UserInput input" "ms @ [userMessage input]" us]
    by (metis prod.collapse)
  obtain oc st evs where t: "toolLoop e us r \<lparr>iterationCount = 0, currentEditorContent = JStr ed,
            updatedMessages = fst ?sent, toolHistory = [], editorUpdates = []\<rparr> = (oc, st, evs)"
    by (metis prod_cases3)
  have f: "oc = Finished" "modelCalls evs = toolExecs evs"
    using toolLoop_finishes[OF ar _ t] a by auto
  have l: "iterationCount st = MAX_TOOL_ITERATIONS"
    using toolLoop_reaches_limit[OF _ _ t rq] a by simp
  have c: "toolExecs evs = MAX_TOOL_ITERATIONS" using toolLoop_counts[OF t] l by simp
  note h = handleSend_sent[where key=key and wm=wm, OF _ _ r t]
  show "turnOutcome (handleSend e input key ed ms wm us) = Finished" using h(1) a f by simp
  show "toolExecs (turnCalls (handleSend e input key ed ms wm us)) = MAX_TOOL_ITERATIONS"
    using h(2) a c by (simp add: toolExecs_def)
  show "modelCalls (turnCalls (handleSend e input key ed ms wm us)) = Suc MAX_TOOL_ITERATIONS"
    using h(2) a c f by (simp add: modelCalls_def)
qed

text \<open>A model that asks for \<^verbatim>\<open>view_file\<close> in every reply, and an executor that returns
  the editor content each time.\<close>

definition viewFileCall :: tool_call where
  "viewFileCall = \<lparr>tool_name = ''view_file'', parameters = JObj []\<rparr>"

definition viewFileReply :: agent_response where
  "viewFileReply =
     \<lparr>response = ''Let me look at the file.'', reasoning = None, tool_calls = Some [viewFileCall]\<rparr>"

definition alwaysToolEnv :: env where
  "alwaysToolEnv =
     \<lparr>sendModel = (\<lambda>n c i ms. \<lparr>chunks = [], settled = Resolved viewFileReply\<rparr>),
      execTool = (\<lambda>n tc c. Returned \<lparr>success = True, data = Some (JObj [(''content'', c)]), error = None\<rparr>),
      summarise = (\<lambda>name d. Inr []),
      errorContent = (\<lambda>msg. msg)\<rparr>"

lemmas evalLoop = sendAgentRequest_def loopBody_def formattedResult_def resultOf_def
  editedEditorContent_def dataProp_def requestedCall_def setLastAgent_def setLast_def defined_def
  userMessage_def agentMessage_def writeModeUpdate_def MAX_TOOL_ITERATIONS_def Let_def
  toolExecs_def modelCalls_def toolLoop.simps

lemmas evalTrim = trim_def skipSpaces_def isSpace_def

lemma alwaysTool_loop:
  assumes "toolLoop alwaysToolEnv False viewFileReply
             \<lparr>iterationCount = 0, currentEditorContent = JStr ''doc'',
              updatedMessages = [userMessage ''hello'', (agentMessage (response viewFileReply))
                 \<lparr>m_tool_calls := tool_calls viewFileReply\<rparr>],
              toolHistory = [], editorUpdates = []\<rparr> = (oc, st, evs)"
  shows "oc = Finished \<and> toolExecs evs = 10 \<and> modelCalls evs = 10
     \<and> m_tool_calls (last (updatedMessages st)) = Some [viewFileCall]
     \<and> m_tool_results (last (updatedMessages st)) = None
     \<and> length (updatedMessages st) = 12"
  using assms by (simp add: evalLoop alwaysToolEnv_def viewFileCall_def viewFileReply_def) auto

text \<open>
  Claim C1 as stated says that the eleventh requested tool call surfaces an iteration
  limit failure. With a model that requests \<^verbatim>\<open>view_file\<close> in every reply the turn ends
  \<open>Finished\<close> after ten tool executions and eleven model requests; the last message
  carries the eleventh requested call and no tool result, and no error message is appended.
\<close>

theorem no_iteration_limit_failure_counterexample:
  "turnOutcome (handleSend alwaysToolEnv ''hello'' ''sk-test'' ''doc'' [] False False) = Finished
   \<and> toolExecs (turnCalls (handleSend alwaysToolEnv ''hello'' ''sk-test'' ''doc'' [] False False)) = 10
   \<and> modelCalls (turnCalls (handleSend alwaysToolEnv ''hello'' ''sk-test'' ''doc'' [] False False)) = 11
   \<and> m_tool_calls (last (turnMessages (handleSend alwaysToolEnv ''hello'' ''sk-test'' ''doc'' [] False False)))
       = Some [viewFileCall]
   \<and> m_tool_results (last (turnMessages (handleSend alwaysToolEnv ''hello'' ''sk-test'' ''doc'' [] False False)))
       = None"
proof -
  obtain oc st evs where t: "toolLoop alwaysToolEnv False viewFileReply
             \<lparr>iterationCount = 0, currentEditorContent = JStr ''doc'',
              updatedMessages = [userMessage ''hello'', (agentMessage (response viewFileReply))
                 \<lparr>m_tool_calls := tool_calls viewFileReply\<rparr>],
              toolHistory = [], editorUpdates = []\<rparr> = (oc, st, evs)"
    by (metis prod_cases3)
  have s: "sendAgentRequest alwaysToolEnv 0 (JStr ''doc'') (UserInput ''hello'') ([] @ [userMessage ''hello'']) False
      = ([userMessage ''hello'', (agentMessage (response viewFileReply))
                 \<lparr>m_tool_calls := tool_calls viewFileReply\<rparr>], Resolved viewFileReply)"
    by (simp add: sendAgentRequest_def alwaysToolEnv_def agentMessage_def)
  have i: "trim ''hello'' \<noteq> []" "trim ''sk-test'' \<noteq> []" by (simp_all add: evalTrim)
  have m: "turnMessages (handleSend alwaysToolEnv ''hello'' ''sk-test'' ''doc'' [] False False)
      = (case oc of Failed msg \<Rightarrow> updatedMessages st @ [agentMessage (errorContent alwaysToolEnv msg)]
         | _ \<Rightarrow> updatedMessages st)"
    using i s t by (simp add: handleSend_def Let_def)
  show ?thesis
    using alwaysTool_loop[OF t] handleSend_sent(1,2)[OF i s t] m
    by (simp add: toolExecs_def modelCalls_def)
qed

text \<open>
  Claim C1, on the turn of a model that requests \<^verbatim>\<open>view_file\<close> in every reply.
\<close>

theorem tool_executions_bounded_witness:
  "modelAlwaysRequestsTool alwaysToolEnv \<and> formattingTotal alwaysToolEnv
   \<and> turnOutcome (handleSend alwaysToolEnv ''hello'' ''sk-test'' ''doc'' [] False False) = Finished
   \<and> toolExecs (turnCalls (handleSend alwaysToolEnv ''hello'' ''sk-test'' ''doc'' [] False False))
       = MAX_TOOL_ITERATIONS"
proof -
  have 1: "modelAlwaysRequestsTool alwaysToolEnv"
    by (simp add: modelAlwaysRequestsTool_def alwaysToolEnv_def requestedCall_def viewFileReply_def)
  have 2: "formattingTotal alwaysToolEnv" by (simp add: formattingTotal_def alwaysToolEnv_def)
  have 3: "trim ''hello'' \<noteq> []" "trim ''sk-test'' \<noteq> []" by (simp_all add: evalTrim)
  show ?thesis
    using tool_executions_bounded[of alwaysToolEnv "''hello''" "''sk-test''" "''doc''" "[]" False False,
        THEN conjunct2, THEN mp] 1 2 3
    by simp
qed

subsection \<open>A failed tool execution is folded back\<close>

fun isFailure :: "exec_outcome \<Rightarrow> bool" where
  "isFailure (Returned r) = False"
| "isFailure (Threw m) = True"
| "isFailure TimedOut = True"

fun startsWithModelCall :: "call_event list \<Rightarrow> bool" where
  "startsWithModelCall (ModelCall n c i # rest) = True"
| "startsWithModelCall evs = False"

text \<open>
  What the claim expects of an execution that threw or timed out, written from its words
  and compared with the loop below: the error message, the substituted result
  (\<^verbatim>\<open>success = false\<close>, no data, that message), and the input of the fold-back request,
  the follow-up text that embeds the tool name, \<^verbatim>\<open>success: false\<close> and the message.
\<close>

definition failureMessage :: "tool_call \<Rightarrow> exec_outcome \<Rightarrow> string" where
  "failureMessage tc oc =
     (case oc of
        Threw (Some msg) \<Rightarrow> msg
      | Threw None \<Rightarrow> msgToolFailed
      | TimedOut \<Rightarrow> msgToolTimeout (tool_name tc)
      | Returned r \<Rightarrow> [])"

definition failedResult :: "tool_call \<Rightarrow> exec_outcome \<Rightarrow> tool_result" where
  "failedResult tc oc = \<lparr>success = False, data = None, error = Some (failureMessage tc oc)\<rparr>"

definition foldBackInput :: "tool_call \<Rightarrow> exec_outcome \<Rightarrow> agent_input" where
  "foldBackInput tc oc =
     ToolFollowUp (tool_name tc)
       (JObj [(''tool'', JStr (tool_name tc)), (''success'', JBool False),
              (''error'', JStr (failureMessage tc oc))])"

text \<open>
  The property of a list of calls: every tool execution that threw or timed out is
  recorded with the substituted result, the next call is the fold-back request, made with
  the same iteration number and the same editor content, and the call after that request,
  if any, is not another request to the model.
\<close>

fun foldBackOk :: "call_event list \<Rightarrow> bool" where
  "foldBackOk [] = True"
| "foldBackOk (ModelCall n c i # rest) = foldBackOk rest"
| "foldBackOk (ToolExec n tc c oc r # rest) =
     ((if isFailure oc
       then r = failedResult tc oc \<and>
            (case rest of
               ModelCall n' c' i # rest' \<Rightarrow>
                 n' = n \<and> c' = c \<and> i = foldBackInput tc oc \<and> \<not> startsWithModelCall rest'
             | _ \<Rightarrow> False)
       else True)
      \<and> foldBackOk rest)"

lemma resultOf_failed: "isFailure oc \<Longrightarrow> resultOf tc oc = failedResult tc oc"
  by (cases oc) (auto simp: resultOf_def failedResult_def failureMessage_def split: option.splits)

lemma resultOf_failure:
  "isFailure oc \<Longrightarrow> \<not> success (resultOf tc oc) \<and> data (resultOf tc oc) = None \<and> error (resultOf tc oc) \<noteq> None"
  by (simp add: resultOf_failed failedResult_def)

lemma formattedResult_failed:
  "formattedResult e tc (failedResult tc oc) =
     Inr (JObj [(''tool'', JStr (tool_name tc)), (''success'', JBool False),
                (''error'', JStr (failureMessage tc oc))])"
  by (simp add: formattedResult_def failedResult_def defined_def)

lemma editedEditorContent_failed: "editedEditorContent tc (failedResult tc oc) = None"
  by (simp add: editedEditorContent_def failedResult_def)

text \<open>
  The body of the loop on an execution that fails, in terms of the request it makes to
  the model.
\<close>

lemma loopBody_failure:
  assumes "isFailure (execTool e (Suc (iterationCount st)) tc (currentEditorContent st))"
  shows "loopBody e us tc st =
     (let n = Suc (iterationCount st);
          c = currentEditorContent st;
          oc = execTool e n tc c;
          r = failedResult tc oc;
          shown = setLastAgent (\<lambda>m. m\<lparr>m_tool_results := Some [r]\<rparr>)
                    (setLastAgent (\<lambda>m. m\<lparr>m_tool_calls := Some [tc]\<rparr>) (updatedMessages st));
          evs = [ToolExec n tc c oc r, ModelCall n c (foldBackInput tc oc)];
          st2 = \<lparr>iterationCount = n, currentEditorContent = c,
                 updatedMessages = fst (sendAgentRequest e n c (foldBackInput tc oc) shown us),
                 toolHistory = toolHistory st @ [(tc, r)], editorUpdates = editorUpdates st\<rparr>
      in case settled (sendModel e n c (foldBackInput tc oc) shown) of
           Resolved next \<Rightarrow> Inr (next, st2, evs)
         | Rejected msg \<Rightarrow> Inl (Failed msg, st2, evs)
         | Pending \<Rightarrow> Inl (Stuck, st2, evs))"
  using resultOf_failed[OF assms, of tc]
    sendAgentRequest_settled[of e "Suc (iterationCount st)" "currentEditorContent st"
      "foldBackInput tc (execTool e (Suc (iterationCount st)) tc (currentEditorContent st))"
      "setLastAgent (\<lambda>m. m\<lparr>m_tool_results :=
           Some [failedResult tc (execTool e (Suc (iterationCount st)) tc (currentEditorContent st))]\<rparr>)
         (setLastAgent (\<lambda>m. m\<lparr>m_tool_calls := Some [tc]\<rparr>) (updatedMessages st))" us]
  by (simp add: loopBody_def Let_def formattedResult_failed editedEditorContent_failed
      foldBackInput_def split: settlement.splits)

definition bodyEvents ::
  "(turn_outcome \<times> loop_state \<times> call_event list) + (agent_response \<times> loop_state \<times> call_event list)
     \<Rightarrow> call_event list" where
  "bodyEvents res = (case res of Inl (x, st2, evs) \<Rightarrow> evs | Inr (r2, st2, evs) \<Rightarrow> evs)"

lemma loopBody_events:
  "(let n = Suc (iterationCount st);
        c = currentEditorContent st;
        oc = execTool e n tc c
    in if isFailure oc
       then bodyEvents (loopBody e us tc st)
              = [ToolExec n tc c oc (failedResult tc oc), ModelCall n c (foldBackInput tc oc)]
       else (bodyEvents (loopBody e us tc st) = [ToolExec n tc c oc (resultOf tc oc)]
               \<and> isl (loopBody e us tc st))
            \<or> (\<exists>c' i. bodyEvents (loopBody e us tc st)
                         = [ToolExec n tc c oc (resultOf tc oc), ModelCall n c' i]))"
proof (cases "isFailure (execTool e (Suc (iterationCount st)) tc (currentEditorContent st))")
  case True
  show ?thesis
    using True loopBody_failure[OF True, of us]
    by (simp add: bodyEvents_def Let_def split: settlement.splits)
next
  case False
  then show ?thesis
    by (auto simp: loopBody_def bodyEvents_def Let_def split: sum.splits settlement.splits)
qed

lemma foldBackOk_body:
  assumes "foldBackOk rest" "\<not> startsWithModelCall rest"
    and "isl (loopBody e us tc st) \<longrightarrow> rest = []"
  shows "foldBackOk (bodyEvents (loopBody e us tc st) @ rest)
       \<and> \<not> startsWithModelCall (bodyEvents (loopBody e us tc st) @ rest)"
  using loopBody_events[of st e tc us] assms
  unfolding Let_def by (auto split: if_splits)

lemma toolLoop_foldBack:
  "toolLoop e us r st = (oc, st', evs) \<Longrightarrow> foldBackOk evs \<and> \<not> startsWithModelCall evs"
proof (induction e us r st arbitrary: oc st' evs rule: toolLoop.induct)
  case (1 e us r st)
  show ?case
  proof (cases "requestedCall r")
    case None
    then show ?thesis using "1.prems" by (simp add: toolLoop.simps)
  next
    case (Some tc)
    show ?thesis
    proof (cases "iterationCount st < MAX_TOOL_ITERATIONS")
      case False
      then show ?thesis using "1.prems" Some by (simp add: toolLoop.simps)
    next
      case True
      show ?thesis
      proof (cases "loopBody e us tc st")
        case (Inl stopped)
        obtain oc0 st0 evs0 where s: "stopped = (oc0, st0, evs0)" by (cases stopped)
        have "toolLoop e us r st = (oc0, st0, evs0)"
          using Some True Inl s by (simp add: toolLoop.simps)
        then have "evs = evs0" using "1.prems" by simp
        then show ?thesis
          using foldBackOk_body[of "[]" e us tc st] Inl s by (simp add: bodyEvents_def)
      next
        case (Inr cont)
        obtain r2 st2 evs2 where c: "cont = (r2, st2, evs2)" by (cases cont)
        obtain oc3 st3 rest where t: "toolLoop e us r2 st2 = (oc3, st3, rest)"
          by (cases "toolLoop e us r2 st2")
        have ih: "foldBackOk rest \<and> \<not> startsWithModelCall rest"
          using "1.IH"[OF Some True Inr c[symmetric] refl t] .
        have "toolLoop e us r st = (oc3, st3, evs2 @ rest)"
          using Some True Inr c t by (simp add: toolLoop.simps)
        then have "evs = evs2 @ rest" using "1.prems" by simp
        then show ?thesis
          using foldBackOk_body[of rest e us tc st] Inr c ih by (simp add: bodyEvents_def)
      qed
    qed
  qed
qed

lemma handleSend_foldBack: "foldBackOk (turnCalls (handleSend e input key ed ms wm us))"
proof (cases "trim input \<noteq> [] \<and> trim key \<noteq> []
    \<and> (\<exists>r. snd (sendAgentRequest e 0 (JStr ed) (UserInput input) (ms @ [userMessage input]) us) = Resolved r)")
  case False
  then show ?thesis
    by (auto simp: handleSend_def Let_def split: settlement.splits)
next
  case True
  let ?sent = "sendAgentRequest e 0 (JStr ed) (UserInput input) (ms @ [userMessage input]) us"
  from True obtain r where r: "?sent = (fst ?sent, Resolved r)" by (metis prod.collapse)
  obtain oc st evs where t: "toolLoop e us r \<lparr>iterationCount = 0, currentEditorContent = JStr ed,
            updatedMessages = fst ?sent, toolHistory = [], editorUpdates = []\<rparr> = (oc, st, evs)"
    by (metis prod_cases3)
  show ?thesis
    using handleSend_sent(2)[where key=key and wm=wm, OF _ _ r t] True toolLoop_foldBack[OF t] by simp
qed

text \<open>
  Claim C6, in three parts.
  \<^item> On the calls of a whole turn: every tool execution that throws or is overtaken by the
    30 second timer is recorded with the substituted result (\<^verbatim>\<open>success = false\<close>, no
    data, the error message), the next call is a request to the model with the same
    iteration number and editor content whose input is the follow-up of that failed
    result, and what follows that request is a tool execution or the end of the turn.
  \<^item> A turn that is sent and whose first request resolves is that request followed by the
    loop on its reply, from the initial state.
  \<^item> On the loop, from any state in which the reply requests a tool call \<open>tc\<close> below
    the iteration limit and the execution fails: the loop does not stop at the failure;
    it calls \<open>sendModel\<close> with the iteration number, the unchanged editor content, the
    fold-back input \<open>foldBackInput tc oc\<close> that embeds the failed result, and the
    messages whose last agent message shows the call and the failed result. When that
    request resolves, the loop goes on as the loop on the reply of the model, from a
    state whose history holds the failed result (the loop condition is tested again on
    that reply); when it is rejected or never settles, the turn fails with the message
    of the rejection or waits. In each case the calls made are the failed execution and
    that one request.
\<close>

theorem failed_tool_is_folded_back:
  "foldBackOk (turnCalls (handleSend e input key ed ms wm us))
   \<and> (trim input \<noteq> [] \<and> trim key \<noteq> []
        \<and> settled (sendModel e 0 (JStr ed) (UserInput input) (ms @ [userMessage input])) = Resolved reply \<longrightarrow>
      (\<exists>msgs. (turnOutcome (handleSend e input key ed ms wm us), turnCalls (handleSend e input key ed ms wm us)) =
         (case toolLoop e us reply
                 \<lparr>iterationCount = 0, currentEditorContent = JStr ed, updatedMessages = msgs,
                  toolHistory = [], editorUpdates = []\<rparr> of
            (outcome, st', evs) \<Rightarrow> (outcome, ModelCall 0 (JStr ed) (UserInput input) # evs))))
   \<and> (requestedCall reply = Some tc \<and> iterationCount st < MAX_TOOL_ITERATIONS
        \<and> isFailure (execTool e (Suc (iterationCount st)) tc (currentEditorContent st)) \<longrightarrow>
      (let n = Suc (iterationCount st);
           c = currentEditorContent st;
           oc = execTool e n tc c;
           r = failedResult tc oc;
           shown = setLastAgent (\<lambda>m. m\<lparr>m_tool_results := Some [r]\<rparr>)
                     (setLastAgent (\<lambda>m. m\<lparr>m_tool_calls := Some [tc]\<rparr>) (updatedMessages st));
           evs = [ToolExec n tc c oc r, ModelCall n c (foldBackInput tc oc)]
       in case settled (sendModel e n c (foldBackInput tc oc) shown) of
            Resolved next \<Rightarrow>
              (\<exists>msgs. toolLoop e us reply st =
                 (case toolLoop e us next
                         \<lparr>iterationCount = n, currentEditorContent = c, updatedMessages = msgs,
                          toolHistory = toolHistory st @ [(tc, r)], editorUpdates = editorUpdates st\<rparr> of
                    (outcome, st3, rest) \<Rightarrow> (outcome, st3, evs @ rest)))
          | Rejected msg \<Rightarrow> (\<exists>st2. toolLoop e us reply st = (Failed msg, st2, evs))
          | Pending \<Rightarrow> (\<exists>st2. toolLoop e us reply st = (Stuck, st2, evs))))"
proof (intro conjI impI)
  show "foldBackOk (turnCalls (handleSend e input key ed ms wm us))" by (rule handleSend_foldBack)
next
  assume b: "trim input \<noteq> [] \<and> trim key \<noteq> []
        \<and> settled (sendModel e 0 (JStr ed) (UserInput input) (ms @ [userMessage input])) = Resolved reply"
  let ?sent = "sendAgentRequest e 0 (JStr ed) (UserInput input) (ms @ [userMessage input]) us"
  have r: "?sent = (fst ?sent, Resolved reply)"
    using b sendAgentRequest_settled[of e 0 "JStr ed" "UserInput input" "ms @ [userMessage input]" us]
    by (metis prod.collapse)
  obtain oc st' evs where t: "toolLoop e us reply \<lparr>iterationCount = 0, currentEditorContent = JStr ed,
            updatedMessages = fst ?sent, toolHistory = [], editorUpdates = []\<rparr> = (oc, st', evs)"
    by (metis prod_cases3)
  have "(turnOutcome (handleSend e input key ed ms wm us), turnCalls (handleSend e input key ed ms wm us)) =
         (case toolLoop e us reply
                 \<lparr>iterationCount = 0, currentEditorContent = JStr ed, updatedMessages = fst ?sent,
                  toolHistory = [], editorUpdates = []\<rparr> of
            (outcome, st', evs) \<Rightarrow> (outcome, ModelCall 0 (JStr ed) (UserInput input) # evs))"
    using handleSend_sent(1,2)[where key=key and wm=wm, OF _ _ r t] b t by simp
  then show "\<exists>msgs. (turnOutcome (handleSend e input key ed ms wm us), turnCalls (handleSend e input key ed ms wm us)) =
         (case toolLoop e us reply
                 \<lparr>iterationCount = 0, currentEditorContent = JStr ed, updatedMessages = msgs,
                  toolHistory = [], editorUpdates = []\<rparr> of
            (outcome, st', evs) \<Rightarrow> (outcome, ModelCall 0 (JStr ed) (UserInput input) # evs))"
    by blast
next
  assume a: "requestedCall reply = Some tc \<and> iterationCount st < MAX_TOOL_ITERATIONS
        \<and> isFailure (execTool e (Suc (iterationCount st)) tc (currentEditorContent st))"
  then have f: "isFailure (execTool e (Suc (iterationCount st)) tc (currentEditorContent st))" by simp
  have step: "toolLoop e us reply st =
      (case loopBody e us tc st of
         Inl stopped \<Rightarrow> stopped
       | Inr (r, st2, evs) \<Rightarrow>
           (case toolLoop e us r st2 of (outcome, st3, rest) \<Rightarrow> (outcome, st3, evs @ rest)))"
    using a by (subst toolLoop.simps) simp
  show "let n = Suc (iterationCount st);
           c = currentEditorContent st;
           oc = execTool e n tc c;
           r = failedResult tc oc;
           shown = setLastAgent (\<lambda>m. m\<lparr>m_tool_results := Some [r]\<rparr>)
                     (setLastAgent (\<lambda>m. m\<lparr>m_tool_calls := Some [tc]\<rparr>) (updatedMessages st));
           evs = [ToolExec n tc c oc r, ModelCall n c (foldBackInput tc oc)]
       in case settled (sendModel e n c (foldBackInput tc oc) shown) of
            Resolved next \<Rightarrow>
              (\<exists>msgs. toolLoop e us reply st =
                 (case toolLoop e us next
                         \<lparr>iterationCount = n, currentEditorContent = c, updatedMessages = msgs,
                          toolHistory = toolHistory st @ [(tc, r)], editorUpdates = editorUpdates st\<rparr> of
                    (outcome, st3, rest) \<Rightarrow> (outcome, st3, evs @ rest)))
          | Rejected msg \<Rightarrow> (\<exists>st2. toolLoop e us reply st = (Failed msg, st2, evs))
          | Pending \<Rightarrow> (\<exists>st2. toolLoop e us reply st = (Stuck, st2, evs))"
    unfolding step loopBody_failure[OF f, of us] Let_def
    by (auto split: settlement.splits)
qed

text \<open>
  A turn in which the first tool call times out and the second throws: the model asks for
  \<^verbatim>\<open>view_file\<close> in its first two replies and answers without a tool call in the third.
\<close>

definition plainReply :: agent_response where
  "plainReply = \<lparr>response = ''The tool is not available.'', reasoning = None, tool_calls = None\<rparr>"

definition failingToolsEnv :: env where
  "failingToolsEnv =
     \<lparr>sendModel = (\<lambda>n c i ms. \<lparr>chunks = [], settled = Resolved (if n < 2 then viewFileReply else plainReply)\<rparr>),
      execTool = (\<lambda>n tc c. if n = 1 then TimedOut else Threw (Some ''HTTP error! status: 500'')),
      summarise = (\<lambda>name d. Inr []),
      errorContent = (\<lambda>msg. msg)\<rparr>"

definition timeoutInput :: agent_input where
  "timeoutInput =
     ToolFollowUp ''view_file''
       (JObj [(''tool'', JStr ''view_file''), (''success'', JBool False),
              (''error'', JStr (msgToolTimeout ''view_file''))])"

definition thrownInput :: agent_input where
  "thrownInput =
     ToolFollowUp ''view_file''
       (JObj [(''tool'', JStr ''view_file''), (''success'', JBool False),
              (''error'', JStr ''HTTP error! status: 500'')])"

definition firstState :: loop_state where
  "firstState =
     \<lparr>iterationCount = 0, currentEditorContent = JStr ''doc'',
      updatedMessages = [userMessage ''hello'', (agentMessage (response viewFileReply))
         \<lparr>m_tool_calls := tool_calls viewFileReply\<rparr>],
      toolHistory = [], editorUpdates = []\<rparr>"

lemma failingTools_loop:
  assumes "toolLoop failingToolsEnv False viewFileReply firstState = (oc, st, evs)"
  shows "oc = Finished
     \<and> evs =
        [ToolExec 1 viewFileCall (JStr ''doc'') TimedOut
           \<lparr>success = False, data = None, error = Some (msgToolTimeout ''view_file'')\<rparr>,
         ModelCall 1 (JStr ''doc'') timeoutInput,
         ToolExec 2 viewFileCall (JStr ''doc'') (Threw (Some ''HTTP error! status: 500''))
           \<lparr>success = False, data = None, error = Some ''HTTP error! status: 500''\<rparr>,
         ModelCall 2 (JStr ''doc'') thrownInput]"
  using assms
  by (simp add: evalLoop failingToolsEnv_def viewFileCall_def viewFileReply_def plainReply_def
      firstState_def timeoutInput_def thrownInput_def) auto

text \<open>
  Claim C6, on a turn whose first tool execution times out and whose second throws: each
  is followed by one request to the model that carries the failed result, and from the
  first state the loop continues as the loop on the reply to the fold-back request.
\<close>

theorem failed_tool_is_folded_back_witness:
  "foldBackOk (turnCalls (handleSend failingToolsEnv ''hello'' ''sk-test'' ''doc'' [] False False))
   \<and> turnOutcome (handleSend failingToolsEnv ''hello'' ''sk-test'' ''doc'' [] False False) = Finished
   \<and> turnCalls (handleSend failingToolsEnv ''hello'' ''sk-test'' ''doc'' [] False False) =
        [ModelCall 0 (JStr ''doc'') (UserInput ''hello''),
         ToolExec 1 viewFileCall (JStr ''doc'') TimedOut
           \<lparr>success = False, data = None, error = Some (msgToolTimeout ''view_file'')\<rparr>,
         ModelCall 1 (JStr ''doc'') timeoutInput,
         ToolExec 2 viewFileCall (JStr ''doc'') (Threw (Some ''HTTP error! status: 500''))
           \<lparr>success = False, data = None, error = Some ''HTTP error! status: 500''\<rparr>,
         ModelCall 2 (JStr ''doc'') thrownInput]
   \<and> settled (sendModel failingToolsEnv 0 (JStr ''doc'') (UserInput ''hello'') ([] @ [userMessage ''hello'']))
       = Resolved viewFileReply
   \<and> (\<exists>msgs. (turnOutcome (handleSend failingToolsEnv ''hello'' ''sk-test'' ''doc'' [] False False),
                turnCalls (handleSend failingToolsEnv ''hello'' ''sk-test'' ''doc'' [] False False)) =
         (case toolLoop failingToolsEnv False viewFileReply
                 \<lparr>iterationCount = 0, currentEditorContent = JStr ''doc'', updatedMessages = msgs,
                  toolHistory = [], editorUpdates = []\<rparr> of
            (outcome, st', evs) \<Rightarrow> (outcome, ModelCall 0 (JStr ''doc'') (UserInput ''hello'') # evs)))
   \<and> requestedCall viewFileReply = Some viewFileCall
   \<and> iterationCount firstState < MAX_TOOL_ITERATIONS
   \<and> isFailure (execTool failingToolsEnv 1 viewFileCall (JStr ''doc''))
   \<and> foldBackInput viewFileCall (execTool failingToolsEnv 1 viewFileCall (JStr ''doc'')) = timeoutInput
   \<and> (\<exists>msgs. toolLoop failingToolsEnv False viewFileReply firstState =
         (case toolLoop failingToolsEnv False viewFileReply
                 \<lparr>iterationCount = 1, currentEditorContent = JStr ''doc'', updatedMessages = msgs,
                  toolHistory = [(viewFileCall, failedResult viewFileCall TimedOut)],
                  editorUpdates = []\<rparr> of
            (outcome, st3, rest) \<Rightarrow>
              (outcome, st3,
               [ToolExec 1 viewFileCall (JStr ''doc'') TimedOut (failedResult viewFileCall TimedOut),
                ModelCall 1 (JStr ''doc'') timeoutInput] @ rest)))"
proof -
  obtain oc st evs where t: "toolLoop failingToolsEnv False viewFileReply firstState = (oc, st, evs)"
    by (metis prod_cases3)
  have s: "sendAgentRequest failingToolsEnv 0 (JStr ''doc'') (UserInput ''hello'') ([] @ [userMessage ''hello'']) False
      = (updatedMessages firstState, Resolved viewFileReply)"
    by (simp add: sendAgentRequest_def failingToolsEnv_def agentMessage_def firstState_def)
  have i: "trim ''hello'' \<noteq> []" "trim ''sk-test'' \<noteq> []" by (simp_all add: evalTrim)
  have t': "toolLoop failingToolsEnv False viewFileReply
      \<lparr>iterationCount = 0, currentEditorContent = JStr ''doc'',
       updatedMessages = updatedMessages firstState, toolHistory = [], editorUpdates = []\<rparr> = (oc, st, evs)"
    using t by (simp add: firstState_def)
  note th = failed_tool_is_folded_back[of failingToolsEnv "''hello''" "''sk-test''" "''doc''" "[]" False False
      viewFileReply viewFileCall firstState]
  have folded: "foldBackOk (turnCalls (handleSend failingToolsEnv ''hello'' ''sk-test'' ''doc'' [] False False))"
    using th by (rule conjunct1)
  have run: "turnOutcome (handleSend failingToolsEnv ''hello'' ''sk-test'' ''doc'' [] False False) = Finished"
    "turnCalls (handleSend failingToolsEnv ''hello'' ''sk-test'' ''doc'' [] False False) =
        [ModelCall 0 (JStr ''doc'') (UserInput ''hello''),
         ToolExec 1 viewFileCall (JStr ''doc'') TimedOut
           \<lparr>success = False, data = None, error = Some (msgToolTimeout ''view_file'')\<rparr>,
         ModelCall 1 (JStr ''doc'') timeoutInput,
         ToolExec 2 viewFileCall (JStr ''doc'') (Threw (Some ''HTTP error! status: 500''))
           \<lparr>success = False, data = None, error = Some ''HTTP error! status: 500''\<rparr>,
         ModelCall 2 (JStr ''doc'') thrownInput]"
    using failingTools_loop[OF t] handleSend_sent(1,2)[OF i s t'] by simp_all
  have h1: "requestedCall viewFileReply = Some viewFileCall"
    by (simp add: requestedCall_def viewFileReply_def)
  have h2: "iterationCount firstState < MAX_TOOL_ITERATIONS"
    by (simp add: firstState_def MAX_TOOL_ITERATIONS_def)
  have ex: "execTool failingToolsEnv 1 viewFileCall (JStr ''doc'') = TimedOut"
    by (simp add: failingToolsEnv_def)
  have h3: "isFailure (execTool failingToolsEnv 1 viewFileCall (JStr ''doc''))"
    unfolding ex by simp
  have inp: "foldBackInput viewFileCall (execTool failingToolsEnv 1 viewFileCall (JStr ''doc'')) = timeoutInput"
    unfolding ex by (simp add: foldBackInput_def failureMessage_def timeoutInput_def viewFileCall_def)
  have h3': "isFailure (execTool failingToolsEnv (Suc (iterationCount firstState)) viewFileCall
      (currentEditorContent firstState))"
    by (simp add: firstState_def failingToolsEnv_def)
  have ex': "execTool failingToolsEnv (Suc 0) viewFileCall (JStr ''doc'') = TimedOut"
    by (simp add: failingToolsEnv_def)
  have inp': "foldBackInput viewFileCall TimedOut = timeoutInput"
    by (simp add: foldBackInput_def failureMessage_def timeoutInput_def viewFileCall_def)
  have sm: "\<And>i ms. settled (sendModel failingToolsEnv (Suc 0) (JStr ''doc'') i ms) = Resolved viewFileReply"
    by (simp add: failingToolsEnv_def)
  have again: "\<exists>msgs. toolLoop failingToolsEnv False viewFileReply firstState =
         (case toolLoop failingToolsEnv False viewFileReply
                 \<lparr>iterationCount = 1, currentEditorContent = JStr ''doc'', updatedMessages = msgs,
                  toolHistory = [(viewFileCall, failedResult viewFileCall TimedOut)],
                  editorUpdates = []\<rparr> of
            (outcome, st3, rest) \<Rightarrow>
              (outcome, st3,
               [ToolExec 1 viewFileCall (JStr ''doc'') TimedOut (failedResult viewFileCall TimedOut),
                ModelCall 1 (JStr ''doc'') timeoutInput] @ rest))"
    using th[THEN conjunct2, THEN conjunct2, THEN mp, OF conjI[OF h1 conjI[OF h2 h3']]]
    by (simp add: Let_def firstState_def sm ex' inp')
  have first: "settled (sendModel failingToolsEnv 0 (JStr ''doc'') (UserInput ''hello'') ([] @ [userMessage ''hello'']))
       = Resolved viewFileReply"
    by (simp add: failingToolsEnv_def)
  note turn = th[THEN conjunct2, THEN conjunct1, THEN mp, OF conjI[OF i(1) conjI[OF i(2) first]]]
  show ?thesis
    using folded run first turn h1 h2 h3 inp again by (intro conjI)
qed

subsection \<open>The edit tool and the editor content the loop holds\<close>

fun contentOf :: "call_event \<Rightarrow> json" where
  "contentOf (ModelCall n c i) = c"
| "contentOf (ToolExec n tc c oc r) = c"

fun isSetContent :: "editor_call \<Rightarrow> bool" where
  "isSetContent (SetContent c) = True"
| "isSetContent (AppendReply c t) = False"

text \<open>
  An executor that answers every \<^verbatim>\<open>edit_file\<close> call as the server does, with the result
  of \<^verbatim>\<open>executeEditFile\<close> on some parameters and editor text, unless the call throws or
  times out. The other tools are not constrained.
\<close>

definition editFileServed :: "env \<Rightarrow> bool" where
  "editFileServed e =
     (\<forall>n tc c. tool_name tc = ''edit_file'' \<longrightarrow>
        isFailure (execTool e n tc c) \<or> (\<exists>p ed. execTool e n tc c = Returned (executeEditFile p ed)))"

lemma executeEditFile_no_content: "dataProp (executeEditFile p ed) ''content'' = None"
  by (simp add: executeEditFile_def dataProp_def failure_def split: sum.splits)

lemma executeEditFile_new_content:
  "success (executeEditFile p ed) \<Longrightarrow>
   \<exists>newContent. editedContent p ed = Inr newContent
     \<and> dataProp (executeEditFile p ed) ''new_content'' = Some (JStr newContent)"
  by (auto simp: executeEditFile_def dataProp_def failure_def split: sum.splits if_splits)

lemma served_no_update:
  assumes "editFileServed e"
  shows "editedEditorContent tc (resultOf tc (execTool e n tc c)) = None"
proof (cases "tool_name tc = ''edit_file''")
  case False
  then show ?thesis by (simp add: editedEditorContent_def)
next
  case True
  then consider "isFailure (execTool e n tc c)" | p ed where "execTool e n tc c = Returned (executeEditFile p ed)"
    using assms unfolding editFileServed_def by blast
  then show ?thesis
  proof cases
    case 1
    then show ?thesis using resultOf_failure[of "execTool e n tc c" tc] by (simp add: editedEditorContent_def)
  next
    case 2
    then show ?thesis by (simp add: editedEditorContent_def resultOf_def executeEditFile_no_content)
  qed
qed

definition bodyState ::
  "(turn_outcome \<times> loop_state \<times> call_event list) + (agent_response \<times> loop_state \<times> call_event list)
     \<Rightarrow> loop_state" where
  "bodyState res = (case res of Inl (x, st2, evs) \<Rightarrow> st2 | Inr (r2, st2, evs) \<Rightarrow> st2)"

lemma loopBody_frame:
  assumes "editFileServed e"
  shows "currentEditorContent (bodyState (loopBody e us tc st)) = currentEditorContent st
     \<and> editorUpdates (bodyState (loopBody e us tc st)) = editorUpdates st
     \<and> list_all (\<lambda>ev. contentOf ev = currentEditorContent st) (bodyEvents (loopBody e us tc st))"
  using served_no_update[OF assms, of tc "Suc (iterationCount st)" "currentEditorContent st"]
  by (auto simp: loopBody_def bodyState_def bodyEvents_def Let_def split: sum.splits settlement.splits)

lemma toolLoop_frame:
  "editFileServed e \<Longrightarrow> toolLoop e us r st = (oc, st', evs) \<Longrightarrow>
   currentEditorContent st' = currentEditorContent st \<and> editorUpdates st' = editorUpdates st
   \<and> list_all (\<lambda>ev. contentOf ev = currentEditorContent st) evs"
proof (induction e us r st arbitrary: oc st' evs rule: toolLoop.induct)
  case (1 e us r st)
  note served = "1.prems"(1)
  show ?case
  proof (cases "requestedCall r")
    case None
    then show ?thesis using "1.prems"(2) by (simp add: toolLoop.simps)
  next
    case (Some tc)
    show ?thesis
    proof (cases "iterationCount st < MAX_TOOL_ITERATIONS")
      case False
      then show ?thesis using "1.prems"(2) Some by (simp add: toolLoop.simps)
    next
      case True
      note f = loopBody_frame[OF served, of us tc st]
      show ?thesis
      proof (cases "loopBody e us tc st")
        case (Inl stopped)
        obtain oc0 st0 evs0 where s: "stopped = (oc0, st0, evs0)" by (cases stopped)
        have "toolLoop e us r st = (oc0, st0, evs0)"
          using Some True Inl s by (simp add: toolLoop.simps)
        then show ?thesis using "1.prems"(2) f Inl s by (simp add: bodyState_def bodyEvents_def)
      next
        case (Inr cont)
        obtain r2 st2 evs2 where c: "cont = (r2, st2, evs2)" by (cases cont)
        obtain oc3 st3 rest where t: "toolLoop e us r2 st2 = (oc3, st3, rest)"
          by (cases "toolLoop e us r2 st2")
        have ih: "currentEditorContent st3 = currentEditorContent st2 \<and> editorUpdates st3 = editorUpdates st2
            \<and> list_all (\<lambda>ev. contentOf ev = currentEditorContent st2) rest"
          using "1.IH"[OF Some True Inr c[symmetric] refl served t] .
        have "toolLoop e us r st = (oc3, st3, evs2 @ rest)"
          using Some True Inr c t by (simp add: toolLoop.simps)
        then show ?thesis using "1.prems"(2) f Inr c ih by (simp add: bodyState_def bodyEvents_def)
      qed
    qed
  qed
qed

text \<open>
  Claim C9. A successful \<^verbatim>\<open>executeEditFile\<close> returns the new text under
  \<^verbatim>\<open>data.new_content\<close>, and its \<^verbatim>\<open>data\<close> has no \<^verbatim>\<open>content\<close> property, so the loop's
  test \<^verbatim>\<open>result.data?.content\<close> fails on it. With an executor that answers
  \<^verbatim>\<open>edit_file\<close> calls as the server does, the editor content the loop holds at the end
  of the turn is the one it started with, every tool execution and every request to the
  model of the turn carries that content, and \<^verbatim>\<open>onUpdateContent\<close> is never called with
  an edited content.
\<close>

theorem edit_file_leaves_held_content:
  "(success (executeEditFile p ed) \<longrightarrow>
      (\<exists>newContent. editedContent p ed = Inr newContent
         \<and> dataProp (executeEditFile p ed) ''new_content'' = Some (JStr newContent)))
   \<and> dataProp (executeEditFile p ed) ''content'' = None
   \<and> editedEditorContent tc (executeEditFile p ed) = None
   \<and> (editFileServed e \<longrightarrow>
        turnHeldContent (handleSend e input key ec ms wm us) = JStr ec
        \<and> list_all (\<lambda>ev. contentOf ev = JStr ec) (turnCalls (handleSend e input key ec ms wm us))
        \<and> list_all (\<lambda>c. \<not> isSetContent c) (turnEditorCalls (handleSend e input key ec ms wm us)))"
proof (intro conjI impI)
  assume "success (executeEditFile p ed)"
  then show "\<exists>newContent. editedContent p ed = Inr newContent
         \<and> dataProp (executeEditFile p ed) ''new_content'' = Some (JStr newContent)"
    by (rule executeEditFile_new_content)
next
  show "dataProp (executeEditFile p ed) ''content'' = None" by (rule executeEditFile_no_content)
next
  show "editedEditorContent tc (executeEditFile p ed) = None"
    by (simp add: editedEditorContent_def executeEditFile_no_content)
next
  assume served: "editFileServed e"
  let ?sent = "sendAgentRequest e 0 (JStr ec) (UserInput input) (ms @ [userMessage input]) us"
  have "turnHeldContent (handleSend e input key ec ms wm us) = JStr ec
        \<and> list_all (\<lambda>ev. contentOf ev = JStr ec) (turnCalls (handleSend e input key ec ms wm us))
        \<and> list_all (\<lambda>c. \<not> isSetContent c) (turnEditorCalls (handleSend e input key ec ms wm us))"
  proof (cases "trim input \<noteq> [] \<and> trim key \<noteq> [] \<and> (\<exists>r. snd ?sent = Resolved r)")
    case False
    then show ?thesis
      by (auto simp: handleSend_def Let_def split: settlement.splits)
  next
    case True
    then obtain r where r: "?sent = (fst ?sent, Resolved r)" by (metis prod.collapse)
    obtain oc st evs where t: "toolLoop e us r \<lparr>iterationCount = 0, currentEditorContent = JStr ec,
            updatedMessages = fst ?sent, toolHistory = [], editorUpdates = []\<rparr> = (oc, st, evs)"
      by (metis prod_cases3)
    have w: "list_all (\<lambda>c. \<not> isSetContent c) (case oc of Finished \<Rightarrow> writeModeUpdate wm st | _ \<Rightarrow> [])"
      by (cases oc) (simp_all add: writeModeUpdate_def)
    show ?thesis
      using handleSend_sent(2,3,4)[where key=key and wm=wm, OF _ _ r t] True toolLoop_frame[OF served t] w
      by simp
  qed
  then show "turnHeldContent (handleSend e input key ec ms wm us) = JStr ec"
    and "list_all (\<lambda>ev. contentOf ev = JStr ec) (turnCalls (handleSend e input key ec ms wm us))"
    and "list_all (\<lambda>c. \<not> isSetContent c) (turnEditorCalls (handleSend e input key ec ms wm us))"
    by simp_all
qed


text \<open>
  A turn in which the model asks once for \<^verbatim>\<open>edit_file\<close> with an append, and the
  executor answers with the result of \<^verbatim>\<open>executeEditFile\<close> on the editor content of
  the request.
\<close>

definition appendParams :: edit_params where
  "appendParams =
     \<lparr>operation = Some ''append'', new_text = Some ''more'', target_text = None, position = None\<rparr>"

definition editCall :: tool_call where
  "editCall =
     \<lparr>tool_name = ''edit_file'',
      parameters = JObj [(''operation'', JStr ''append''), (''content'', JStr ''more'')]\<rparr>"

definition editReply :: agent_response where
  "editReply = \<lparr>response = ''I will append a line.'', reasoning = None, tool_calls = Some [editCall]\<rparr>"

definition doneReply :: agent_response where
  "doneReply = \<lparr>response = ''Done.'', reasoning = None, tool_calls = None\<rparr>"

definition textOf :: "json \<Rightarrow> string" where
  "textOf c = (case c of JStr s \<Rightarrow> s | _ \<Rightarrow> [])"

definition editEnv :: env where
  "editEnv =
     \<lparr>sendModel = (\<lambda>n c i ms. \<lparr>chunks = [], settled = Resolved (if n = 0 then editReply else doneReply)\<rparr>),
      execTool = (\<lambda>n tc c. Returned (executeEditFile appendParams (textOf c))),
      summarise = (\<lambda>name d. Inr []),
      errorContent = (\<lambda>msg. msg)\<rparr>"

definition appended :: string where
  "appended = ''doc'' @ [CHR 0x0A, CHR 0x0A] @ ''more''"

definition appendResult :: tool_result where
  "appendResult =
     \<lparr>success = True,
      data = Some (JObj
        [(''operation'', JStr ''append''),
         (''new_content'', JStr appended),
         (''message'', JStr (msgEdited ''append'')),
         (''stats'', JObj [(''old_lines'', JNum 1), (''new_lines'', JNum 3), (''lines_added'', JNum 2)])]),
      error = None\<rparr>"

lemma executeEditFile_append: "executeEditFile appendParams ''doc'' = appendResult"
  by (simp add: executeEditFile_def editedContent_def appendParams_def appendResult_def appended_def
      strOf_def lineCount_def)

lemma editEnv_loop:
  assumes "toolLoop editEnv False editReply
             \<lparr>iterationCount = 0, currentEditorContent = JStr ''doc'',
              updatedMessages = ms0, toolHistory = [], editorUpdates = []\<rparr> = (oc, st, evs)"
  shows "oc = Finished \<and> editorUpdates st = []
     \<and> evs =
        [ToolExec 1 editCall (JStr ''doc'') (Returned appendResult) appendResult,
         ModelCall 1 (JStr ''doc'')
           (ToolFollowUp ''edit_file''
              (JObj [(''tool'', JStr ''edit_file''), (''success'', JBool True),
                     (''data'', the (data appendResult))]))]"
  using assms
  by (simp add: evalLoop editEnv_def editCall_def editReply_def doneReply_def textOf_def
      executeEditFile_append appendResult_def) auto

text \<open>
  Claim C9, on a turn with one \<^verbatim>\<open>edit_file\<close> append: the result holds the appended
  text under \<^verbatim>\<open>new_content\<close>, and the follow-up request to the model still carries the
  original text.
\<close>

theorem edit_file_leaves_held_content_witness:
  "editFileServed editEnv
   \<and> success (executeEditFile appendParams ''doc'')
   \<and> dataProp (executeEditFile appendParams ''doc'') ''new_content'' = Some (JStr appended)
   \<and> dataProp (executeEditFile appendParams ''doc'') ''content'' = None
   \<and> turnHeldContent (handleSend editEnv ''add a line'' ''sk-test'' ''doc'' [] False False) = JStr ''doc''
   \<and> turnCalls (handleSend editEnv ''add a line'' ''sk-test'' ''doc'' [] False False) =
        [ModelCall 0 (JStr ''doc'') (UserInput ''add a line''),
         ToolExec 1 editCall (JStr ''doc'') (Returned appendResult) appendResult,
         ModelCall 1 (JStr ''doc'')
           (ToolFollowUp ''edit_file''
              (JObj [(''tool'', JStr ''edit_file''), (''success'', JBool True),
                     (''data'', the (data appendResult))]))]
   \<and> turnEditorCalls (handleSend editEnv ''add a line'' ''sk-test'' ''doc'' [] False False) =
        []"
proof -
  have served: "editFileServed editEnv"
    unfolding editFileServed_def by (auto simp: editEnv_def)
  note th = edit_file_leaves_held_content[of appendParams "''doc''" editCall editEnv
      "''add a line''" "''sk-test''" "''doc''" "[]" False False]
  have ok: "success (executeEditFile appendParams ''doc'')"
    by (simp add: executeEditFile_append appendResult_def)
  have new: "dataProp (executeEditFile appendParams ''doc'') ''new_content'' = Some (JStr appended)"
    using th ok by (simp add: editedContent_def appendParams_def appended_def strOf_def)
  have none: "dataProp (executeEditFile appendParams ''doc'') ''content'' = None"
    using th by blast
  have held: "turnHeldContent (handleSend editEnv ''add a line'' ''sk-test'' ''doc'' [] False False) = JStr ''doc''"
    using th served by blast
  let ?sent = "sendAgentRequest editEnv 0 (JStr ''doc'') (UserInput ''add a line'') ([] @ [userMessage ''add a line'']) False"
  have s: "?sent = (fst ?sent, Resolved editReply)"
    by (simp add: sendAgentRequest_def editEnv_def)
  obtain oc st evs where t: "toolLoop editEnv False editReply
             \<lparr>iterationCount = 0, currentEditorContent = JStr ''doc'',
              updatedMessages = fst ?sent, toolHistory = [], editorUpdates = []\<rparr> = (oc, st, evs)"
    by (metis prod_cases3)
  have i: "trim ''add a line'' \<noteq> []" "trim ''sk-test'' \<noteq> []" by (simp_all add: evalTrim)
  have calls: "turnCalls (handleSend editEnv ''add a line'' ''sk-test'' ''doc'' [] False False) =
        [ModelCall 0 (JStr ''doc'') (UserInput ''add a line''),
         ToolExec 1 editCall (JStr ''doc'') (Returned appendResult) appendResult,
         ModelCall 1 (JStr ''doc'')
           (ToolFollowUp ''edit_file''
              (JObj [(''tool'', JStr ''edit_file''), (''success'', JBool True),
                     (''data'', the (data appendResult))]))]"
    using editEnv_loop[OF t] handleSend_sent(2)[OF i s t] by simp
  have eds: "turnEditorCalls (handleSend editEnv ''add a line'' ''sk-test'' ''doc'' [] False False) = []"
    using editEnv_loop[OF t] handleSend_sent(4)[OF i s t] by (simp add: writeModeUpdate_def)
  show ?thesis using served ok new none held calls eds by (intro conjI)
qed

end
